theory Spec2Isabelle
  imports Main "HOL-Library.Word"
begin

section \<open>The cache simulator \<open>csim.c\<close>\<close>

text \<open>
  A shallow embedding of \<open>src/csim.c\<close>: the set-associative cache simulator with its
  recency counters. The C structs are records, the arrays of sets and of lines are lists,
  the in-place updates of the cache are returned as a new cache, and every operation whose
  behaviour C leaves undefined (a shift by a count outside \<open>0..63\<close>, a read or write
  outside an array, an overflowing \<open>int\<close> increment, a read of an uninitialised
  pointer) is a branch of the model that returns an error. C's \<open>int\<close> is modelled by \<open>int\<close> with the bound \<open>INT_MAX\<close>
  checked at every increment. Memory allocation is assumed to succeed.
\<close>

subsection \<open>Data model (lines 31--67)\<close>

type_synonym mem_addr_t = "64 word"

text \<open>The field \<open>block\<close> of \<open>set_line\<close> is never allocated or read and is left out.\<close>

record set_line =
  valid :: int
  access_count :: int
  tag :: mem_addr_t

type_synonym cache_set = "set_line list"

type_synonym cache = "cache_set list"

record cache_param_t =
  s :: int
  b :: int
  E :: int
  S :: int
  B :: int
  hits :: int
  misses :: int
  evictions :: int

subsection \<open>Errors and the C operations that can go wrong\<close>

datatype error =
  Missing_argument
  | Shift_out_of_range
  | Index_out_of_bounds
  | Signed_overflow
  | Conversion_out_of_range
  | Uninitialised_read

definition bind_err :: "error + 'a \<Rightarrow> ('a \<Rightarrow> error + 'b) \<Rightarrow> error + 'b" where
  "bind_err m f = (case m of Inl e \<Rightarrow> Inl e | Inr x \<Rightarrow> f x)"

definition INT_MAX :: int where
  "INT_MAX = 2147483647"

text \<open>\<open>x + 1\<close> and \<open>x++\<close> on an \<open>int\<close>.\<close>

definition c_incr :: "int \<Rightarrow> error + int" where
  "c_incr x = (if x < INT_MAX then Inr (x + 1) else Inl Signed_overflow)"

text \<open>\<open>x << k\<close> and \<open>x >> k\<close> on an \<open>unsigned long long\<close>, with an \<open>int\<close> count.\<close>

definition shl64 :: "mem_addr_t \<Rightarrow> int \<Rightarrow> error + mem_addr_t" where
  "shl64 x k = (if 0 \<le> k \<and> k < 64 then Inr (push_bit (nat k) x) else Inl Shift_out_of_range)"

definition shr64 :: "mem_addr_t \<Rightarrow> int \<Rightarrow> error + mem_addr_t" where
  "shr64 x k = (if 0 \<le> k \<and> k < 64 then Inr (drop_bit (nat k) x) else Inl Shift_out_of_range)"

text \<open>\<open>xs[i]\<close> read, and \<open>xs[i]\<close> updated in place.\<close>

definition at_index :: "'a list \<Rightarrow> nat \<Rightarrow> error + 'a" where
  "at_index xs i = (if i < length xs then Inr (xs ! i) else Inl Index_out_of_bounds)"

definition modify_at :: "'a list \<Rightarrow> nat \<Rightarrow> ('a \<Rightarrow> 'a) \<Rightarrow> error + 'a list" where
  "modify_at xs i f = (if i < length xs then Inr (xs[i := f (xs ! i)]) else Inl Index_out_of_bounds)"

text \<open>\<open>for (i = ...; i < n; i++) body\<close>, over the indices the loop visits in order.\<close>

fun for_loop :: "(nat \<Rightarrow> 'st \<Rightarrow> error + 'st) \<Rightarrow> nat list \<Rightarrow> 'st \<Rightarrow> error + 'st" where
  "for_loop body [] st = Inr st"
| "for_loop body (i # rest) st = bind_err (body i st) (for_loop body rest)"

subsection \<open>\<open>build_cache\<close> (lines 92--122)\<close>

text \<open>
  The loop counter \<open>setIndex\<close> is an \<open>int\<close> compared with the \<open>long long\<close>
  \<open>num_sets\<close>: with more than \<open>INT_MAX\<close> sets its increment overflows. A loop whose
  bound is not positive does not run. \<open>block_size\<close> is not used.
\<close>

definition build_cache :: "int \<Rightarrow> int \<Rightarrow> int \<Rightarrow> error + cache" where
  "build_cache num_sets num_lines block_size =
     (if num_sets > INT_MAX then Inl Signed_overflow
      else Inr (replicate (nat num_sets)
                 (replicate (nat num_lines) \<lparr>valid = 0, access_count = 0, tag = 0\<rparr>)))"

subsection \<open>\<open>get_empty_line\<close> (lines 144--158)\<close>

fun get_empty_line_loop :: "cache_set \<Rightarrow> nat list \<Rightarrow> error + nat" where
  "get_empty_line_loop this_set [] = Inr 0"
| "get_empty_line_loop this_set (i # rest) =
     bind_err (at_index this_set i) (\<lambda>line.
       if valid line = 0 then Inr i else get_empty_line_loop this_set rest)"

definition get_empty_line :: "cache_set \<Rightarrow> cache_param_t \<Rightarrow> error + nat" where
  "get_empty_line this_set par = get_empty_line_loop this_set [0..<nat (E par)]"

subsection \<open>\<open>get_LRU\<close> (lines 161--208)\<close>

text \<open>The loop state is \<open>(max_used, min_used, min_used_index)\<close>.\<close>

definition get_LRU_step :: "cache_set \<Rightarrow> nat \<Rightarrow> int \<times> int \<times> nat \<Rightarrow> error + (int \<times> int \<times> nat)" where
  "get_LRU_step this_set lineIndex st =
     (case st of (max_used, min_used, min_used_index) \<Rightarrow>
        bind_err (at_index this_set lineIndex) (\<lambda>line.
          Inr (if max_used < access_count line then access_count line else max_used,
               if min_used > access_count line then access_count line else min_used,
               if min_used > access_count line then lineIndex else min_used_index)))"

text \<open>The result is \<open>(min_used_index, used_lines[0], used_lines[1])\<close>.\<close>

definition get_LRU :: "cache_set \<Rightarrow> cache_param_t \<Rightarrow> error + (nat \<times> int \<times> int)" where
  "get_LRU this_set par =
     bind_err (at_index this_set 0) (\<lambda>line0.
     bind_err (for_loop (get_LRU_step this_set) [1..<nat (E par)]
                 (access_count line0, access_count line0, 0))
       (\<lambda>(max_used, min_used, min_used_index). Inr (min_used_index, min_used, max_used)))"

subsection \<open>\<open>simulate_cache\<close> (lines 211--282)\<close>

text \<open>Lines 219--224: the tag and the set index of an address, \<open>(input_tag, setIndex)\<close>.\<close>

definition address_bits :: "cache_param_t \<Rightarrow> mem_addr_t \<Rightarrow> error + (mem_addr_t \<times> mem_addr_t)" where
  "address_bits par address =
     (let tag_size = 64 - (s par + b par) in
      bind_err (shl64 address tag_size) (\<lambda>temp.
      bind_err (shr64 temp (tag_size + b par)) (\<lambda>setIndex.
      bind_err (shr64 address (s par + b par)) (\<lambda>input_tag.
        Inr (input_tag, setIndex)))))"

text \<open>
  Lines 228--245, one iteration of the scan for a hit. The loop state is
  \<open>(query_set, par, cache_full)\<close>. The scan does not stop at a hit.
\<close>

definition hit_scan_step ::
  "mem_addr_t \<Rightarrow> nat \<Rightarrow> cache_set \<times> cache_param_t \<times> int \<Rightarrow> error + (cache_set \<times> cache_param_t \<times> int)" where
  "hit_scan_step input_tag lineIndex st =
     (case st of (query_set, par, cache_full) \<Rightarrow>
        bind_err (at_index query_set lineIndex) (\<lambda>line.
          if valid line \<noteq> 0 then
            (if tag line = input_tag then
               bind_err (c_incr (access_count line)) (\<lambda>count.
               bind_err (c_incr (hits par)) (\<lambda>h.
                 Inr (query_set[lineIndex := line\<lparr>access_count := count\<rparr>],
                      par\<lparr>hits := h\<rparr>, cache_full)))
             else Inr (query_set, par, cache_full))
          else if \<not> (valid line \<noteq> 0) \<and> cache_full \<noteq> 0 then Inr (query_set, par, 0)
          else Inr (query_set, par, cache_full)))"

definition simulate_cache :: "cache \<Rightarrow> cache_param_t \<Rightarrow> mem_addr_t \<Rightarrow> error + (cache \<times> cache_param_t)" where
  "simulate_cache this_cache par0 address =
     (let num_lines = E par0; prev_hits = hits par0 in
      bind_err (address_bits par0 address) (\<lambda>(input_tag, setIndex).
      bind_err (at_index this_cache (unat setIndex)) (\<lambda>query_set0.
      bind_err (for_loop (hit_scan_step input_tag) [0..<nat num_lines] (query_set0, par0, 1))
        (\<lambda>(query_set, par, cache_full).
          if prev_hits = hits par then
            bind_err (c_incr (misses par)) (\<lambda>m.
            let par = par\<lparr>misses := m\<rparr> in
            bind_err (get_LRU query_set par) (\<lambda>(min_used_index, min_used, max_used).
              if cache_full \<noteq> 0 then
                bind_err (c_incr (evictions par)) (\<lambda>ev.
                let par = par\<lparr>evictions := ev\<rparr> in
                bind_err (c_incr max_used) (\<lambda>count.
                bind_err (modify_at query_set min_used_index
                            (\<lambda>line. line\<lparr>tag := input_tag, access_count := count\<rparr>))
                  (\<lambda>query_set. Inr (this_cache[unat setIndex := query_set], par))))
              else
                bind_err (get_empty_line query_set par) (\<lambda>empty_line_index.
                bind_err (c_incr max_used) (\<lambda>count.
                bind_err (modify_at query_set empty_line_index
                            (\<lambda>line. line\<lparr>tag := input_tag, valid := 1, access_count := count\<rparr>))
                  (\<lambda>query_set. Inr (this_cache[unat setIndex := query_set], par))))))
          else Inr (this_cache[unat setIndex := query_set], par)))))"

subsection \<open>\<open>bit_pow\<close> and \<open>main\<close> (lines 285--381)\<close>

text \<open>
  \<open>1LL << pw\<close> (\<open>pw\<close> is the parameter \<open>power\<close> of the source): defined only when
  the result fits a \<open>long long\<close>.
\<close>

definition bit_pow :: "int \<Rightarrow> error + int" where
  "bit_pow pw = (if 0 \<le> pw \<and> pw < 63 then Inr (2 ^ nat pw) else Inl Shift_out_of_range)"

text \<open>
  Line 341, \<open>num_sets = pow(2.0, par.s)\<close>: the power of two is exact as a double, and
  its conversion to \<open>long long\<close> truncates (to 0 for a negative exponent) and is
  undefined from \<open>2^63\<close> on.
\<close>

definition pow2_sets :: "int \<Rightarrow> error + int" where
  "pow2_sets e =
     (if e < 0 then Inr 0 else if e < 63 then Inr (2 ^ nat e) else Inl Conversion_out_of_range)"

text \<open>
  A record of the trace as \<open>fscanf\<close> reads it: the command character, the address and
  the size. Lines 353--370 replay the records in order.
\<close>

type_synonym trace_record = "char \<times> mem_addr_t \<times> int"

fun replay :: "trace_record list \<Rightarrow> cache \<Rightarrow> cache_param_t \<Rightarrow> error + (cache \<times> cache_param_t)" where
  "replay [] this_cache par = Inr (this_cache, par)"
| "replay ((cmd, address, sz) # rest) this_cache par =
     (if cmd = CHR ''I'' then replay rest this_cache par
      else if cmd = CHR ''L'' then
        bind_err (simulate_cache this_cache par address) (\<lambda>(c, p). replay rest c p)
      else if cmd = CHR ''S'' then
        bind_err (simulate_cache this_cache par address) (\<lambda>(c, p). replay rest c p)
      else if cmd = CHR ''M'' then
        bind_err (simulate_cache this_cache par address) (\<lambda>(c, p).
        bind_err (simulate_cache c p address) (\<lambda>(c, p). replay rest c p))
      else replay rest this_cache par)"

text \<open>
  \<open>main\<close> from line 334 on, after the option loop has returned: \<open>s_arg\<close>,
  \<open>E_arg\<close> and \<open>b_arg\<close> are what \<open>atoi\<close> left in \<open>par\<close> (0 when the option is
  absent, since \<open>par\<close> is zeroed first), and \<open>records\<close> are the records \<open>fscanf\<close>
  reads from the file, which is assumed to open. The exits of the option loop itself
  (\<open>-h\<close>, an unknown option, an option without its argument) come before and are not
  part of this function.

  \<open>trace_file\<close> is the argument of \<open>-t\<close>, and \<open>None\<close> when there is no \<open>-t\<close>. The
  pointer is declared without an initialiser (line 307) and only \<open>-t\<close> assigns it. With
  \<open>-t\<close> it is \<open>optarg\<close>, the argument \<open>getopt\<close> found, which is not null, and the
  comparison with \<open>NULL\<close> of line 334 is false. Without \<open>-t\<close> the comparison reads
  an indeterminate pointer, which C leaves undefined: this is \<open>Inl Uninitialised_read\<close>.
  The comparison is the last operand of \<open>||\<close>, so the pointer is read only when
  \<open>s\<close>, \<open>E\<close> and \<open>b\<close> are all nonzero.

  The result is the final cache and \<open>par\<close>, whose counters \<open>printSummary\<close> prints;
  \<open>Inl Missing_argument\<close> is the end of the program at lines 335--337 (the message and
  \<open>printUsage\<close>, which exits). The fields \<open>S\<close> and \<open>B\<close> of \<open>par\<close> are never
  written and stay 0; freeing the cache and closing the file are left out.
\<close>

definition main :: "int \<Rightarrow> int \<Rightarrow> int \<Rightarrow> string option \<Rightarrow> trace_record list \<Rightarrow> error + (cache \<times> cache_param_t)" where
  "main s_arg E_arg b_arg trace_file records =
     (let par = \<lparr>s = s_arg, b = b_arg, E = E_arg, S = 0, B = 0, hits = 0, misses = 0, evictions = 0\<rparr> in
      if s par = 0 \<or> E par = 0 \<or> b par = 0 then Inl Missing_argument
      else
        (case trace_file of
          None \<Rightarrow> Inl Uninitialised_read
        | Some file \<Rightarrow>
            bind_err (pow2_sets (s par)) (\<lambda>num_sets.
            bind_err (bit_pow (b par)) (\<lambda>block_size.
            let par = par\<lparr>hits := 0, misses := 0, evictions := 0\<rparr> in
            bind_err (build_cache num_sets (E par) block_size) (\<lambda>this_cache.
              replay records this_cache par)))))"

text \<open>
  Line 374, what \<open>printSummary\<close> prints at the end of a run: the three counters.
\<close>

definition counters :: "cache_param_t \<Rightarrow> int \<times> int \<times> int" where
  "counters par = (hits par, misses par, evictions par)"

definition summary :: "error + (cache \<times> cache_param_t) \<Rightarrow> error + (int \<times> int \<times> int)" where
  "summary r = (case r of Inl e \<Rightarrow> Inl e | Inr (c, par) \<Rightarrow> Inr (counters par))"

subsection \<open>Notions of the specification\<close>

text \<open>A line holds a tag when it is valid and its tag is that tag.\<close>

definition holds_tag :: "mem_addr_t \<Rightarrow> set_line \<Rightarrow> bool" where
  "holds_tag t l \<longleftrightarrow> valid l \<noteq> 0 \<and> tag l = t"

text \<open>No two valid lines of a set hold the same tag.\<close>

definition no_duplicate_tags :: "cache_set \<Rightarrow> bool" where
  "no_duplicate_tags qs \<longleftrightarrow> distinct (map tag (filter (\<lambda>l. valid l \<noteq> 0) qs))"

text \<open>
  The configurations on which every shift of \<open>simulate_cache\<close> is defined and a set has
  a line, and the caches \<open>main\<close> builds for them: \<open>2^s\<close> sets of \<open>E\<close> lines.
\<close>

definition valid_config :: "cache_param_t \<Rightarrow> bool" where
  "valid_config par \<longleftrightarrow> 1 \<le> s par \<and> 1 \<le> b par \<and> s par + b par \<le> 63 \<and> 1 \<le> E par"

definition wf_cache :: "cache_param_t \<Rightarrow> cache \<Rightarrow> bool" where
  "wf_cache par c \<longleftrightarrow> length c = 2 ^ nat (s par) \<and> (\<forall>qs\<in>set c. length qs = nat (E par))"

text \<open>The maximum recency present among the lines of a set.\<close>

definition max_recency :: "cache_set \<Rightarrow> int" where
  "max_recency qs = Max (access_count ` set qs)"

text \<open>The lowest-indexed invalid line of a set.\<close>

definition first_invalid :: "cache_set \<Rightarrow> nat \<Rightarrow> bool" where
  "first_invalid qs k \<longleftrightarrow>
     k < length qs \<and> valid (qs ! k) = 0 \<and> (\<forall>l\<in>set (take k qs). valid l \<noteq> 0)"

text \<open>The line of minimum recency, the lowest-indexed one among equals.\<close>

definition lru_victim :: "cache_set \<Rightarrow> nat \<Rightarrow> bool" where
  "lru_victim qs k \<longleftrightarrow>
     k < length qs \<and> (\<forall>l\<in>set qs. access_count (qs ! k) \<le> access_count l)
     \<and> (\<forall>l\<in>set (take k qs). access_count (qs ! k) < access_count l)"

text \<open>
  Room for \<open>k\<close> more accesses: no counter of \<open>par\<close> and no recency of the cache is
  within \<open>k\<close> of \<open>INT_MAX\<close>.
\<close>

definition headroom :: "int \<Rightarrow> cache_param_t \<Rightarrow> cache \<Rightarrow> bool" where
  "headroom k par c \<longleftrightarrow>
     hits par + k \<le> INT_MAX \<and> misses par + k \<le> INT_MAX \<and> evictions par + k \<le> INT_MAX
     \<and> (\<forall>qs\<in>set c. \<forall>l\<in>set qs. access_count l + k \<le> INT_MAX)"

text \<open>
  The number of cache accesses a trace asks for: one for a load or a store, two for a
  modify, none for an instruction fetch or any other record.
\<close>

fun accesses :: "trace_record list \<Rightarrow> nat" where
  "accesses [] = 0"
| "accesses ((cmd, address, sz) # rest) =
     (if cmd = CHR ''L'' \<or> cmd = CHR ''S'' then 1 else if cmd = CHR ''M'' then 2 else 0)
     + accesses rest"

text \<open>
  The states a run can reach: the cache \<open>build_cache\<close> returns for the lines per set of
  \<open>par0\<close>, and every state a successful access leads to from a state reached.
\<close>

inductive reachable :: "cache_param_t \<Rightarrow> cache \<times> cache_param_t \<Rightarrow> bool" for par0 where
  start: "build_cache num_sets (E par0) block_size = Inr c \<Longrightarrow> reachable par0 (c, par0)"
| step: "reachable par0 (c, par) \<Longrightarrow> simulate_cache c par a = Inr (c', par')
         \<Longrightarrow> reachable par0 (c', par')"

text \<open>
  A set of \<open>n\<close> lines after the first \<open>j\<close> of the tags \<open>ts\<close> were loaded into it,
  one access each, from the empty set: line \<open>i\<close> holds tag \<open>ts ! i\<close> with recency
  \<open>i + 1\<close>.
\<close>

definition loaded_line :: "mem_addr_t list \<Rightarrow> nat \<Rightarrow> set_line" where
  "loaded_line ts i = \<lparr>valid = 1, access_count = int i + 1, tag = ts ! i\<rparr>"

definition filling :: "mem_addr_t list \<Rightarrow> nat \<Rightarrow> nat \<Rightarrow> cache_set" where
  "filling ts j n =
     map (loaded_line ts) [0..<j] @ replicate (n - j) \<lparr>valid = 0, access_count = 0, tag = 0\<rparr>"

section \<open>Lemmas\<close>

subsection \<open>The error monad and the loops\<close>

lemma bind_err_simps:
  "bind_err (Inl e) f = Inl e"
  "bind_err (Inr x) f = f x"
  by (simp_all add: bind_err_def)


lemma bind_err_Inr_iff: "bind_err m f = Inr y \<longleftrightarrow> (\<exists>x. m = Inr x \<and> f x = Inr y)"
  by (cases m) (simp_all add: bind_err_def)

lemma for_loop_append:
  "for_loop body (xs @ ys) st = bind_err (for_loop body xs st) (for_loop body ys)"
proof (induction xs arbitrary: st)
  case Nil
  show ?case by (simp add: bind_err_simps)
next
  case (Cons x xs)
  show ?case by (cases "body x st") (simp_all add: bind_err_simps Cons.IH)
qed

lemma hit_scan_step_miss:
  assumes "i < length qs" "\<not> holds_tag t (qs ! i)"
  shows "hit_scan_step t i (qs, par, cf) = Inr (qs, par, if valid (qs ! i) = 0 then 0 else cf)"
  using assms by (auto simp: hit_scan_step_def at_index_def bind_err_simps holds_tag_def)

lemma hit_scan_miss:
  assumes "\<forall>i\<in>set idxs. i < length qs \<and> \<not> holds_tag t (qs ! i)"
  shows "for_loop (hit_scan_step t) idxs (qs, par, cf) =
           Inr (qs, par, if (\<exists>i\<in>set idxs. valid (qs ! i) = 0) then 0 else cf)"
  using assms
  by (induction idxs arbitrary: cf)
     (auto simp: hit_scan_step_def at_index_def bind_err_simps holds_tag_def)

lemma hit_scan_hit:
  assumes "distinct idxs" "j \<in> set idxs" "\<forall>i\<in>set idxs. i < length qs"
    and "holds_tag t (qs ! j)" "\<forall>i\<in>set idxs. i \<noteq> j \<longrightarrow> \<not> holds_tag t (qs ! i)"
    and "access_count (qs ! j) < INT_MAX" "hits par < INT_MAX"
  shows "\<exists>cf'. for_loop (hit_scan_step t) idxs (qs, par, cf) =
           Inr (qs[j := (qs ! j)\<lparr>access_count := access_count (qs ! j) + 1\<rparr>],
                par\<lparr>hits := hits par + 1\<rparr>, cf')"
  using assms
proof (induction idxs arbitrary: cf)
  case Nil
  then show ?case by simp
next
  case (Cons i rest)
  show ?case
  proof (cases "i = j")
    case True
    let ?qs' = "qs[j := (qs ! j)\<lparr>access_count := access_count (qs ! j) + 1\<rparr>]"
    have step: "hit_scan_step t i (qs, par, cf) = Inr (?qs', par\<lparr>hits := hits par + 1\<rparr>, cf)"
      using Cons.prems True
      by (simp add: hit_scan_step_def at_index_def bind_err_simps holds_tag_def c_incr_def)
    have rest: "\<forall>k\<in>set rest. k < length ?qs' \<and> \<not> holds_tag t (?qs' ! k)"
    proof
      fix k assume k: "k \<in> set rest"
      then have "k \<noteq> j" using Cons.prems(1) True by auto
      then show "k < length ?qs' \<and> \<not> holds_tag t (?qs' ! k)"
        using Cons.prems k by simp
    qed
    show ?thesis
      using hit_scan_miss [OF rest, of "par\<lparr>hits := hits par + 1\<rparr>" cf]
      by (simp add: step bind_err_simps)
  next
    case False
    then have nohit: "\<not> holds_tag t (qs ! i)" and len: "i < length qs"
      using Cons.prems by auto
    define cf1 where "cf1 = (if valid (qs ! i) = 0 then 0 else cf)"
    have step: "hit_scan_step t i (qs, par, cf) = Inr (qs, par, cf1)"
      unfolding cf1_def by (rule hit_scan_step_miss [OF len nohit])
    have "\<exists>cf'. for_loop (hit_scan_step t) rest (qs, par, cf1) =
           Inr (qs[j := (qs ! j)\<lparr>access_count := access_count (qs ! j) + 1\<rparr>],
                par\<lparr>hits := hits par + 1\<rparr>, cf')"
      using Cons.prems False by (intro Cons.IH) auto
    then show ?thesis by (simp add: step bind_err_simps)
  qed
qed

lemma get_LRU_loop:
  assumes "0 < n" "n \<le> length qs"
  shows "\<exists>mx mn k. for_loop (get_LRU_step qs) [Suc 0..<n] (access_count (qs ! 0), access_count (qs ! 0), 0)
            = Inr (mx, mn, k)
          \<and> k < n \<and> mn = access_count (qs ! k)
          \<and> (\<forall>i<n. mn \<le> access_count (qs ! i)) \<and> (\<forall>i<k. mn < access_count (qs ! i))
          \<and> (\<exists>i<n. mx = access_count (qs ! i)) \<and> (\<forall>i<n. access_count (qs ! i) \<le> mx)"
  using assms
proof (induction n)
  case 0
  then show ?case by simp
next
  case (Suc n)
  show ?case
  proof (cases "n = 0")
    case True
    then show ?thesis by simp
  next
    case False
    then obtain mx mn k where
      loop: "for_loop (get_LRU_step qs) [Suc 0..<n] (access_count (qs ! 0), access_count (qs ! 0), 0)
               = Inr (mx, mn, k)"
      and k: "k < n" "mn = access_count (qs ! k)"
      and mn: "\<forall>i<n. mn \<le> access_count (qs ! i)" "\<forall>i<k. mn < access_count (qs ! i)"
      and mx: "\<exists>i<n. mx = access_count (qs ! i)" "\<forall>i<n. access_count (qs ! i) \<le> mx"
      using Suc by auto
    have upt: "[Suc 0..<Suc n] = [Suc 0..<n] @ [n]"
      using False by simp
    have len: "n < length qs" using Suc.prems by simp
    let ?a = "access_count (qs ! n)"
    have step: "for_loop (get_LRU_step qs) [Suc 0..<Suc n] (access_count (qs ! 0), access_count (qs ! 0), 0)
        = Inr (if mx < ?a then ?a else mx, if mn > ?a then ?a else mn, if mn > ?a then n else k)"
      unfolding upt for_loop_append
      by (simp add: loop bind_err_simps get_LRU_step_def at_index_def len)
    from mx(1) obtain im where im: "im < n" "mx = access_count (qs ! im)" by blast
    have mn_le_mx: "mn \<le> mx" using mn(1) mx(2) k(1) k(2) by auto
    show ?thesis
    proof (cases "mn > ?a")
      case True
      then have nomax: "\<not> mx < ?a" using mn_le_mx by simp
      have "\<forall>i<Suc n. ?a \<le> access_count (qs ! i)"
        using mn(1) True by (auto simp: less_Suc_eq)
      moreover have "\<forall>i<n. ?a < access_count (qs ! i)"
        using mn(1) True by fastforce
      moreover have "\<exists>i<Suc n. mx = access_count (qs ! i)"
        using im less_SucI by blast
      moreover have "\<forall>i<Suc n. access_count (qs ! i) \<le> mx"
        using mx(2) nomax by (auto simp: less_Suc_eq)
      ultimately show ?thesis
        using True nomax unfolding step by simp
    next
      case False
      have "\<forall>i<Suc n. mn \<le> access_count (qs ! i)"
        using mn(1) False by (auto simp: less_Suc_eq)
      moreover have "\<exists>i<Suc n. (if mx < ?a then ?a else mx) = access_count (qs ! i)"
      proof (cases "mx < ?a")
        case True
        then show ?thesis by auto
      next
        case False
        have "im < Suc n \<and> (if mx < ?a then ?a else mx) = access_count (qs ! im)"
          using False im by simp
        then show ?thesis by blast
      qed
      moreover have "\<forall>i<Suc n. access_count (qs ! i) \<le> (if mx < ?a then ?a else mx)"
        using mx(2) by (auto simp: less_Suc_eq)
      ultimately show ?thesis
        using False k mn(2) unfolding step by (simp add: less_Suc_eq)
    qed
  qed
qed


lemma get_empty_line_loop_skip:
  assumes "\<forall>i\<in>set xs. i < length qs \<and> valid (qs ! i) \<noteq> 0"
  shows "get_empty_line_loop qs (xs @ ys) = get_empty_line_loop qs ys"
  using assms by (induction xs) (simp_all add: at_index_def bind_err_simps)

lemma get_empty_line_first:
  assumes "k < nat (E par)" "nat (E par) \<le> length qs" "valid (qs ! k) = 0" "\<forall>i<k. valid (qs ! i) \<noteq> 0"
  shows "get_empty_line qs par = Inr k"
proof -
  have split: "[0..<nat (E par)] = [0..<k] @ k # [Suc k..<nat (E par)]"
    using assms(1) by (metis le_add1 less_imp_add_positive upt_add_eq_append upt_conv_Cons plus_nat.add_0)
  have skip: "\<forall>i\<in>set [0..<k]. i < length qs \<and> valid (qs ! i) \<noteq> 0"
    using assms by auto
  show ?thesis
    unfolding get_empty_line_def split get_empty_line_loop_skip [OF skip]
    using assms by (simp add: at_index_def bind_err_simps)
qed

lemma address_bits_word:
  fixes a :: mem_addr_t
  assumes "m + n \<le> 63"
  shows "drop_bit (64 - m) (push_bit (64 - (m + n)) a) = take_bit m (drop_bit n a)"
proof (rule bit_word_eqI)
  fix i assume "i < LENGTH(64)"
  then show "bit (drop_bit (64 - m) (push_bit (64 - (m + n)) a)) i = bit (take_bit m (drop_bit n a)) i"
    using assms by (auto simp: bit_simps add.commute) 
qed


lemma set_take_nth: "(\<forall>l\<in>set (take k xs). P l) \<longleftrightarrow> (\<forall>i<k. i < length xs \<longrightarrow> P (xs ! i))"
  by (auto simp: all_set_conv_all_nth)

lemma set_all_nth: "(\<forall>l\<in>set xs. P l) \<longleftrightarrow> (\<forall>i<length xs. P (xs ! i))"
  by (auto simp: all_set_conv_all_nth)

lemma address_bits_valid:
  assumes "1 \<le> s par" "1 \<le> b par" "s par + b par \<le> 63"
  shows "address_bits par a =
           Inr (drop_bit (nat (s par + b par)) a, take_bit (nat (s par)) (drop_bit (nat (b par)) a))"
proof -
  have n1: "nat (64 - (s par + b par)) = 64 - (nat (s par) + nat (b par))"
    using assms by (simp add: nat_diff_distrib nat_add_distrib)
  have n2: "nat (64 - s par) = 64 - nat (s par)"
    using assms by (simp add: nat_diff_distrib)
  have le: "nat (s par) + nat (b par) \<le> 63"
    using assms by linarith
  show ?thesis
    using assms
    by (simp add: address_bits_def shl64_def shr64_def bind_err_simps n1 n2 address_bits_word [OF le])
qed

lemma set_index_bound:
  fixes w :: mem_addr_t
  shows "unat (take_bit n w) < 2 ^ n"
  by (simp add: unsigned_take_bit_eq)

lemma get_LRU_result:
  assumes "0 < E par" "length qs = nat (E par)"
  shows "\<exists>k. get_LRU qs par = Inr (k, access_count (qs ! k), max_recency qs) \<and> lru_victim qs k"
proof -
  have n: "0 < nat (E par)" "nat (E par) \<le> length qs"
    using assms(1) apply linarith using assms(2) by linarith
  from get_LRU_loop [OF n] obtain mx mn k where
    loop: "for_loop (get_LRU_step qs) [Suc 0..<nat (E par)] (access_count (qs ! 0), access_count (qs ! 0), 0)
            = Inr (mx, mn, k)"
    and k: "k < nat (E par)" "mn = access_count (qs ! k)"
    and mn: "\<forall>i<nat (E par). mn \<le> access_count (qs ! i)" "\<forall>i<k. mn < access_count (qs ! i)"
    and mx: "\<exists>i<nat (E par). mx = access_count (qs ! i)" "\<forall>i<nat (E par). access_count (qs ! i) \<le> mx"
    by blast
  have "mx \<in> access_count ` set qs"
    using mx(1) assms(2) by auto
  moreover have "\<forall>y\<in>access_count ` set qs. y \<le> mx"
    using mx(2) assms(2) by (auto simp: in_set_conv_nth)
  ultimately have "max_recency qs = mx"
    unfolding max_recency_def by (intro Max_eqI) auto
  moreover have "lru_victim qs k"
    unfolding lru_victim_def set_take_nth set_all_nth using k mn assms(2) by simp
  moreover have "get_LRU qs par = Inr (k, mn, mx)"
    using n assms(2) by (simp add: get_LRU_def at_index_def bind_err_simps loop)
  ultimately show ?thesis using k(2) by blast
qed

lemma lru_victim_unique:
  assumes "lru_victim qs k" "lru_victim qs k'"
  shows "k = k'"
proof (rule ccontr)
  assume "k \<noteq> k'"
  then consider "k < k'" | "k' < k" by linarith
  then show False
  proof cases
    case 1
    then have "access_count (qs ! k') < access_count (qs ! k)"
      using assms unfolding lru_victim_def set_take_nth by auto
    moreover have "access_count (qs ! k) \<le> access_count (qs ! k')"
      using assms unfolding lru_victim_def set_all_nth by auto
    ultimately show False by simp
  next
    case 2
    then have "access_count (qs ! k) < access_count (qs ! k')"
      using assms unfolding lru_victim_def set_take_nth by auto
    moreover have "access_count (qs ! k') \<le> access_count (qs ! k)"
      using assms unfolding lru_victim_def set_all_nth by auto
    ultimately show False by simp
  qed
qed

lemma first_invalid_exists:
  assumes "\<exists>l\<in>set qs. valid l = 0"
  shows "\<exists>k. first_invalid qs k"
proof -
  from assms obtain i where i: "i < length qs" "valid (qs ! i) = 0"
    by (auto simp: in_set_conv_nth)
  define k where "k = (LEAST i. i < length qs \<and> valid (qs ! i) = 0)"
  have "k < length qs \<and> valid (qs ! k) = 0"
    unfolding k_def using i by (intro LeastI [of "\<lambda>i. i < length qs \<and> valid (qs ! i) = 0" i]) simp
  moreover have "\<forall>j<k. j < length qs \<longrightarrow> valid (qs ! j) \<noteq> 0"
    unfolding k_def using not_less_Least by blast
  ultimately show ?thesis
    unfolding first_invalid_def set_take_nth by blast
qed


lemma simulate_cache_hit:
  assumes ab: "address_bits par a = Inr (t, si)"
    and si: "unat si < length c"
    and len: "length (c ! unat si) = nat (E par)"
    and j: "j < length (c ! unat si)" "holds_tag t (c ! unat si ! j)"
    and uniq: "\<forall>i<length (c ! unat si). i \<noteq> j \<longrightarrow> \<not> holds_tag t (c ! unat si ! i)"
    and bnd: "access_count (c ! unat si ! j) < INT_MAX" "hits par < INT_MAX"
  shows "simulate_cache c par a =
           Inr (c[unat si := (c ! unat si)[j := (c ! unat si ! j)
                     \<lparr>access_count := access_count (c ! unat si ! j) + 1\<rparr>]],
                par\<lparr>hits := hits par + 1\<rparr>)"
proof -
  let ?qs = "c ! unat si"
  have "\<exists>cf'. for_loop (hit_scan_step t) [0..<nat (E par)] (?qs, par, 1) =
           Inr (?qs[j := (?qs ! j)\<lparr>access_count := access_count (?qs ! j) + 1\<rparr>],
                par\<lparr>hits := hits par + 1\<rparr>, cf')"
    using j uniq bnd len by (intro hit_scan_hit) auto
  then obtain cf' where scan: "for_loop (hit_scan_step t) [0..<nat (E par)] (?qs, par, 1) =
           Inr (?qs[j := (?qs ! j)\<lparr>access_count := access_count (?qs ! j) + 1\<rparr>],
                par\<lparr>hits := hits par + 1\<rparr>, cf')"
    by blast
  show ?thesis
    by (simp add: simulate_cache_def ab si at_index_def bind_err_simps scan)
qed

lemma simulate_cache_miss_scan:
  assumes len: "length qs = nat (E par)" and miss: "\<forall>l\<in>set qs. \<not> holds_tag t l"
  shows "for_loop (hit_scan_step t) [0..<nat (E par)] (qs, par, 1) =
           Inr (qs, par, if (\<exists>l\<in>set qs. valid l = 0) then 0 else 1)"
proof -
  have idx: "\<forall>i\<in>set [0..<nat (E par)]. i < length qs \<and> \<not> holds_tag t (qs ! i)"
    using len miss by simp
  have "(\<forall>i\<in>set [0..<nat (E par)]. valid (qs ! i) \<noteq> 0) \<longleftrightarrow> (\<forall>l\<in>set qs. valid l \<noteq> 0)"
    using len by (auto simp: set_all_nth)
  then have "(\<exists>i\<in>set [0..<nat (E par)]. valid (qs ! i) = 0) \<longleftrightarrow> (\<exists>l\<in>set qs. valid l = 0)"
    by blast
  then show ?thesis
    using hit_scan_miss [OF idx, of par 1] by simp
qed

lemma simulate_cache_fill:
  assumes ab: "address_bits par a = Inr (t, si)"
    and si: "unat si < length c"
    and len: "length (c ! unat si) = nat (E par)"
    and Epos: "0 < E par"
    and miss: "\<forall>l\<in>set (c ! unat si). \<not> holds_tag t l"
    and fi: "first_invalid (c ! unat si) k"
    and bnd: "misses par < INT_MAX" "max_recency (c ! unat si) < INT_MAX"
  shows "simulate_cache c par a =
           Inr (c[unat si := (c ! unat si)[k := (c ! unat si ! k)
                     \<lparr>tag := t, valid := 1, access_count := max_recency (c ! unat si) + 1\<rparr>]],
                par\<lparr>misses := misses par + 1\<rparr>)"
proof -
  let ?qs = "c ! unat si"
  let ?par = "par\<lparr>misses := misses par + 1\<rparr>"
  have k: "k < length ?qs" "valid (?qs ! k) = 0" "\<forall>i<k. valid (?qs ! i) \<noteq> 0"
    using fi unfolding first_invalid_def set_take_nth by auto
  then have inv: "\<exists>l\<in>set ?qs. valid l = 0"
    using nth_mem by blast
  have scan: "for_loop (hit_scan_step t) [0..<nat (E par)] (?qs, par, 1) = Inr (?qs, par, 0)"
    using simulate_cache_miss_scan [OF len miss] inv by simp
  obtain v where lru: "get_LRU ?qs ?par = Inr (v, access_count (?qs ! v), max_recency ?qs)"
    using get_LRU_result [of ?par ?qs] Epos len by auto
  have empty: "get_empty_line ?qs ?par = Inr k"
    using k len by (intro get_empty_line_first) simp_all
  show ?thesis
    using bnd k(1)
    by (simp add: simulate_cache_def ab si at_index_def bind_err_simps scan c_incr_def lru empty
        modify_at_def)
qed

lemma simulate_cache_evict:
  assumes ab: "address_bits par a = Inr (t, si)"
    and si: "unat si < length c"
    and len: "length (c ! unat si) = nat (E par)"
    and Epos: "0 < E par"
    and miss: "\<forall>l\<in>set (c ! unat si). \<not> holds_tag t l"
    and full: "\<forall>l\<in>set (c ! unat si). valid l \<noteq> 0"
    and victim: "lru_victim (c ! unat si) k"
    and bnd: "misses par < INT_MAX" "evictions par < INT_MAX" "max_recency (c ! unat si) < INT_MAX"
  shows "simulate_cache c par a =
           Inr (c[unat si := (c ! unat si)[k := (c ! unat si ! k)
                     \<lparr>tag := t, access_count := max_recency (c ! unat si) + 1\<rparr>]],
                par\<lparr>misses := misses par + 1, evictions := evictions par + 1\<rparr>)"
proof -
  let ?qs = "c ! unat si"
  let ?par = "par\<lparr>misses := misses par + 1\<rparr>"
  have scan: "for_loop (hit_scan_step t) [0..<nat (E par)] (?qs, par, 1) = Inr (?qs, par, 1)"
    using simulate_cache_miss_scan [OF len miss] full by simp
  obtain v where lru: "get_LRU ?qs ?par = Inr (v, access_count (?qs ! v), max_recency ?qs)"
    and v: "lru_victim ?qs v"
    using get_LRU_result [of ?par ?qs] Epos len by auto
  have vk: "v = k" using v victim by (rule lru_victim_unique)
  have k: "k < length ?qs" using victim by (simp add: lru_victim_def)
  show ?thesis
    using bnd k
    by (simp add: simulate_cache_def ab si at_index_def bind_err_simps scan c_incr_def lru vk
        modify_at_def)
qed

subsection \<open>What a successful access does\<close>


lemma distinct_map_filter_nth:
  "distinct (map f (filter P xs)) \<longleftrightarrow>
     (\<forall>i<length xs. \<forall>j<length xs. P (xs ! i) \<and> P (xs ! j) \<and> f (xs ! i) = f (xs ! j) \<longrightarrow> i = j)"
proof (induction xs)
  case Nil
  show ?case by simp
next
  case (Cons x xs)
  have split: "(\<forall>i<length (x # xs). \<forall>j<length (x # xs).
          P ((x # xs) ! i) \<and> P ((x # xs) ! j) \<and> f ((x # xs) ! i) = f ((x # xs) ! j) \<longrightarrow> i = j)
     \<longleftrightarrow> (P x \<longrightarrow> (\<forall>j<length xs. P (xs ! j) \<longrightarrow> f x \<noteq> f (xs ! j)))
        \<and> (\<forall>i<length xs. \<forall>j<length xs. P (xs ! i) \<and> P (xs ! j) \<and> f (xs ! i) = f (xs ! j) \<longrightarrow> i = j)"
    (is "?L \<longleftrightarrow> ?A \<and> ?B")
  proof
    assume L: ?L
    have ?A
    proof (intro impI allI)
      fix j assume "P x" "j < length xs" "P (xs ! j)"
      then show "f x \<noteq> f (xs ! j)"
        using L [rule_format, of 0 "Suc j"] by auto
    qed
    moreover have ?B
    proof (intro impI allI)
      fix i j assume "i < length xs" "j < length xs" "P (xs ! i) \<and> P (xs ! j) \<and> f (xs ! i) = f (xs ! j)"
      then show "i = j"
        using L [rule_format, of "Suc i" "Suc j"] by auto
    qed
    ultimately show "?A \<and> ?B" ..
  next
    assume AB: "?A \<and> ?B"
    show ?L
    proof (intro impI allI)
      fix i j
      assume "i < length (x # xs)" "j < length (x # xs)"
        "P ((x # xs) ! i) \<and> P ((x # xs) ! j) \<and> f ((x # xs) ! i) = f ((x # xs) ! j)"
      then show "i = j"
        using AB by (cases i; cases j) auto
    qed
  qed
  have "distinct (map f (filter P (x # xs))) \<longleftrightarrow>
          (P x \<longrightarrow> f x \<notin> f ` {y \<in> set xs. P y}) \<and> distinct (map f (filter P xs))"
    by auto
  also have "(P x \<longrightarrow> f x \<notin> f ` {y \<in> set xs. P y}) \<longleftrightarrow>
          (P x \<longrightarrow> (\<forall>j<length xs. P (xs ! j) \<longrightarrow> f x \<noteq> f (xs ! j)))"
    by (auto simp: in_set_conv_nth)
  finally show ?case
    unfolding split Cons.IH by blast
qed

lemma no_duplicate_tags_nth:
  "no_duplicate_tags qs \<longleftrightarrow>
     (\<forall>i<length qs. \<forall>j<length qs.
        valid (qs ! i) \<noteq> 0 \<and> valid (qs ! j) \<noteq> 0 \<and> tag (qs ! i) = tag (qs ! j) \<longrightarrow> i = j)"
  unfolding no_duplicate_tags_def by (rule distinct_map_filter_nth)

lemma no_duplicate_tags_same_keys:
  assumes "no_duplicate_tags qs" "length qs' = length qs"
    and "\<forall>i<length qs. (valid (qs' ! i) \<noteq> 0) = (valid (qs ! i) \<noteq> 0) \<and> tag (qs' ! i) = tag (qs ! i)"
  shows "no_duplicate_tags qs'"
  using assms unfolding no_duplicate_tags_nth by metis

lemma no_duplicate_tags_new_tag:
  assumes "no_duplicate_tags qs" "\<forall>l\<in>set qs. \<not> holds_tag t l" "tag l' = t"
  shows "no_duplicate_tags (qs[k := l'])"
  unfolding no_duplicate_tags_nth
proof (intro allI impI)
  fix i j
  assume i: "i < length (qs[k := l'])" and j: "j < length (qs[k := l'])"
    and eq: "valid (qs[k := l'] ! i) \<noteq> 0 \<and> valid (qs[k := l'] ! j) \<noteq> 0
             \<and> tag (qs[k := l'] ! i) = tag (qs[k := l'] ! j)"
  have other: "\<And>m. m < length qs \<Longrightarrow> m \<noteq> k \<Longrightarrow> valid (qs ! m) \<noteq> 0 \<Longrightarrow> tag (qs ! m) \<noteq> t"
    using assms(2) by (auto simp: holds_tag_def)
  show "i = j"
  proof (cases "i = k")
    case True
    show ?thesis
    proof (cases "j = k")
      case True
      with \<open>i = k\<close> show ?thesis by simp
    next
      case False
      then show ?thesis
        using True i j eq other [of j] assms(3) by auto
    qed
  next
    case False
    show ?thesis
    proof (cases "j = k")
      case True
      then show ?thesis
        using False i j eq other [of i] assms(3) by auto
    next
      case jk: False
      then show ?thesis
        using False i j eq assms(1) unfolding no_duplicate_tags_nth by auto
    qed
  qed
qed


lemma hit_scan_step_Inr:
  assumes "hit_scan_step t i (qs, par, cf) = Inr (qs1, par1, cf1)"
  shows "i < length qs \<and>
     ((\<not> holds_tag t (qs ! i) \<and> qs1 = qs \<and> par1 = par \<and> cf1 = (if valid (qs ! i) = 0 then 0 else cf))
      \<or> (holds_tag t (qs ! i) \<and> qs1 = qs[i := (qs ! i)\<lparr>access_count := access_count (qs ! i) + 1\<rparr>]
           \<and> par1 = par\<lparr>hits := hits par + 1\<rparr> \<and> cf1 = cf))"
  using assms
  by (auto simp: hit_scan_step_def at_index_def bind_err_simps holds_tag_def c_incr_def
      split: if_splits)

lemma hit_scan_Inr:
  assumes "for_loop (hit_scan_step t) idxs (qs, par, cf) = Inr (qs', par', cf')"
  shows "length qs' = length qs
     \<and> (\<forall>i<length qs. valid (qs' ! i) = valid (qs ! i) \<and> tag (qs' ! i) = tag (qs ! i))
     \<and> par' = par\<lparr>hits := hits par'\<rparr> \<and> hits par \<le> hits par'
     \<and> (hits par' = hits par \<longrightarrow>
          qs' = qs \<and> (\<forall>i\<in>set idxs. i < length qs \<and> \<not> holds_tag t (qs ! i))
          \<and> cf' = (if \<exists>i\<in>set idxs. valid (qs ! i) = 0 then 0 else cf))"
  using assms
proof (induction idxs arbitrary: qs par cf)
  case Nil
  then show ?case by simp
next
  case (Cons i rest)
  from Cons.prems obtain st1 where
    step: "hit_scan_step t i (qs, par, cf) = Inr st1"
    and loop: "for_loop (hit_scan_step t) rest st1 = Inr (qs', par', cf')"
    by (auto simp: bind_err_Inr_iff)
  obtain qs1 par1 cf1 where st1: "st1 = (qs1, par1, cf1)" by (cases st1) auto
  note IH = Cons.IH [OF loop [unfolded st1]]
  from hit_scan_step_Inr [OF step [unfolded st1]]
  have len: "i < length qs"
    and cases: "(\<not> holds_tag t (qs ! i) \<and> qs1 = qs \<and> par1 = par \<and> cf1 = (if valid (qs ! i) = 0 then 0 else cf))
      \<or> (holds_tag t (qs ! i) \<and> qs1 = qs[i := (qs ! i)\<lparr>access_count := access_count (qs ! i) + 1\<rparr>]
           \<and> par1 = par\<lparr>hits := hits par + 1\<rparr> \<and> cf1 = cf)"
    by auto
  from cases show ?case
  proof
    assume a: "\<not> holds_tag t (qs ! i) \<and> qs1 = qs \<and> par1 = par \<and> cf1 = (if valid (qs ! i) = 0 then 0 else cf)"
    then show ?thesis using IH len by auto
  next
    assume a: "holds_tag t (qs ! i) \<and> qs1 = qs[i := (qs ! i)\<lparr>access_count := access_count (qs ! i) + 1\<rparr>]
           \<and> par1 = par\<lparr>hits := hits par + 1\<rparr> \<and> cf1 = cf"
    have keys: "\<forall>m<length qs. valid (qs1 ! m) = valid (qs ! m) \<and> tag (qs1 ! m) = tag (qs ! m)"
      using a len by (auto simp: nth_list_update)
    have "length qs' = length qs" using IH a by simp
    moreover have "\<forall>m<length qs. valid (qs' ! m) = valid (qs ! m) \<and> tag (qs' ! m) = tag (qs ! m)"
      using IH keys a by simp
    moreover have "par' = par\<lparr>hits := hits par'\<rparr>"
    proof -
      have "par' = par1\<lparr>hits := hits par'\<rparr>" using IH by simp
      then show ?thesis using a by (metis cache_param_t.update_convs(6) cache_param_t.surjective)
    qed
    moreover have "hits par < hits par'" using IH a by simp
    ultimately show ?thesis by simp
  qed
qed



lemma c_incr_Inr: "c_incr x = Inr y \<longleftrightarrow> x < INT_MAX \<and> y = x + 1"
  by (auto simp: c_incr_def)

lemma at_index_Inr: "at_index xs i = Inr y \<longleftrightarrow> i < length xs \<and> y = xs ! i"
  by (auto simp: at_index_def)

lemma modify_at_Inr: "modify_at xs i f = Inr ys \<longleftrightarrow> i < length xs \<and> ys = xs[i := f (xs ! i)]"
  by (auto simp: modify_at_def)

lemma simulate_cache_cases [consumes 1, case_names hit miss]:
  assumes "simulate_cache c par a = Inr (c', par')"
  obtains (hit) t si qs' where
      "address_bits par a = Inr (t, si)" "unat si < length c"
      "hits par < hits par'" "par' = par\<lparr>hits := hits par'\<rparr>"
      "c' = c[unat si := qs']" "length qs' = length (c ! unat si)"
      "\<forall>i<length qs'. valid (qs' ! i) = valid (c ! unat si ! i)
                         \<and> tag (qs' ! i) = tag (c ! unat si ! i)"
  | (miss) t si k l' where
      "address_bits par a = Inr (t, si)" "unat si < length c"
      "\<forall>i<nat (E par). i < length (c ! unat si) \<and> \<not> holds_tag t (c ! unat si ! i)"
      "k < length (c ! unat si)" "tag l' = t"
      "c' = c[unat si := (c ! unat si)[k := l']]"
      "par' = par\<lparr>misses := misses par + 1\<rparr>
       \<or> par' = par\<lparr>misses := misses par + 1, evictions := evictions par + 1\<rparr>"
proof -
  from assms obtain t si where ab: "address_bits par a = Inr (t, si)"
    and r1: "bind_err (at_index c (unat si)) (\<lambda>query_set0.
      bind_err (for_loop (hit_scan_step t) [0..<nat (E par)] (query_set0, par, 1))
        (\<lambda>(query_set, par1, cache_full).
          if hits par = hits par1 then
            bind_err (c_incr (misses par1)) (\<lambda>m.
            let par2 = par1\<lparr>misses := m\<rparr> in
            bind_err (get_LRU query_set par2) (\<lambda>(min_used_index, min_used, max_used).
              if cache_full \<noteq> 0 then
                bind_err (c_incr (evictions par2)) (\<lambda>ev.
                let par3 = par2\<lparr>evictions := ev\<rparr> in
                bind_err (c_incr max_used) (\<lambda>count.
                bind_err (modify_at query_set min_used_index
                            (\<lambda>line. line\<lparr>tag := t, access_count := count\<rparr>))
                  (\<lambda>query_set. Inr (c[unat si := query_set], par3))))
              else
                bind_err (get_empty_line query_set par2) (\<lambda>empty_line_index.
                bind_err (c_incr max_used) (\<lambda>count.
                bind_err (modify_at query_set empty_line_index
                            (\<lambda>line. line\<lparr>tag := t, valid := 1, access_count := count\<rparr>))
                  (\<lambda>query_set. Inr (c[unat si := query_set], par2))))))
          else Inr (c[unat si := query_set], par1))) = Inr (c', par')"
    unfolding simulate_cache_def Let_def bind_err_Inr_iff [of "address_bits par a"] by auto
  from r1 have si: "unat si < length c"
    by (auto simp: bind_err_Inr_iff at_index_Inr)
  let ?qs = "c ! unat si"
  from r1 si obtain qs1 par1 cf1 where
    scan: "for_loop (hit_scan_step t) [0..<nat (E par)] (?qs, par, 1) = Inr (qs1, par1, cf1)"
    and r2: "(if hits par = hits par1 then
            bind_err (c_incr (misses par1)) (\<lambda>m.
            let par2 = par1\<lparr>misses := m\<rparr> in
            bind_err (get_LRU qs1 par2) (\<lambda>(min_used_index, min_used, max_used).
              if cf1 \<noteq> 0 then
                bind_err (c_incr (evictions par2)) (\<lambda>ev.
                let par3 = par2\<lparr>evictions := ev\<rparr> in
                bind_err (c_incr max_used) (\<lambda>count.
                bind_err (modify_at qs1 min_used_index
                            (\<lambda>line. line\<lparr>tag := t, access_count := count\<rparr>))
                  (\<lambda>query_set. Inr (c[unat si := query_set], par3))))
              else
                bind_err (get_empty_line qs1 par2) (\<lambda>empty_line_index.
                bind_err (c_incr max_used) (\<lambda>count.
                bind_err (modify_at qs1 empty_line_index
                            (\<lambda>line. line\<lparr>tag := t, valid := 1, access_count := count\<rparr>))
                  (\<lambda>query_set. Inr (c[unat si := query_set], par2))))))
          else Inr (c[unat si := qs1], par1)) = Inr (c', par')"
    by (auto simp: bind_err_Inr_iff at_index_Inr)
  note sc = hit_scan_Inr [OF scan]
  show ?thesis
  proof (cases "hits par = hits par1")
    case False
    then have eq: "c' = c[unat si := qs1]" "par' = par1" using r2 by auto
    have "hits par < hits par1" using sc False by simp
    moreover have "par1 = par\<lparr>hits := hits par1\<rparr>" using sc by blast
    moreover have "length qs1 = length ?qs" using sc by blast
    moreover have "\<forall>i<length qs1. valid (qs1 ! i) = valid (?qs ! i) \<and> tag (qs1 ! i) = tag (?qs ! i)"
      using sc by simp
    ultimately show ?thesis
      using ab si eq by (intro hit [of t si qs1]) simp_all
  next
    case True
    have "par\<lparr>hits := hits par\<rparr> = par" by simp
    moreover have "par1 = par\<lparr>hits := hits par1\<rparr>" using sc by blast
    ultimately have "par1 = par" using True by metis
    moreover have "qs1 = ?qs" using sc True by simp
    moreover have "\<forall>i<nat (E par). i < length ?qs \<and> \<not> holds_tag t (?qs ! i)"
      using sc True by simp
    ultimately have same: "qs1 = ?qs" "par1 = par"
      and nohit: "\<forall>i<nat (E par). i < length ?qs \<and> \<not> holds_tag t (?qs ! i)"
      by blast+
    have r2': "bind_err (c_incr (misses par1)) (\<lambda>m.
            let par2 = par1\<lparr>misses := m\<rparr> in
            bind_err (get_LRU qs1 par2) (\<lambda>(min_used_index, min_used, max_used).
              if cf1 \<noteq> 0 then
                bind_err (c_incr (evictions par2)) (\<lambda>ev.
                let par3 = par2\<lparr>evictions := ev\<rparr> in
                bind_err (c_incr max_used) (\<lambda>count.
                bind_err (modify_at qs1 min_used_index
                            (\<lambda>line. line\<lparr>tag := t, access_count := count\<rparr>))
                  (\<lambda>query_set. Inr (c[unat si := query_set], par3))))
              else
                bind_err (get_empty_line qs1 par2) (\<lambda>empty_line_index.
                bind_err (c_incr max_used) (\<lambda>count.
                bind_err (modify_at qs1 empty_line_index
                            (\<lambda>line. line\<lparr>tag := t, valid := 1, access_count := count\<rparr>))
                  (\<lambda>query_set. Inr (c[unat si := query_set], par2)))))) = Inr (c', par')"
      using r2 True by simp
    from r2' [unfolded same] obtain k mn mx where
      lru: "get_LRU ?qs (par\<lparr>misses := misses par + 1\<rparr>) = Inr (k, mn, mx)"
      and r3: "(if cf1 \<noteq> 0 then
                bind_err (c_incr (evictions (par\<lparr>misses := misses par + 1\<rparr>))) (\<lambda>ev.
                let par3 = par\<lparr>misses := misses par + 1, evictions := ev\<rparr> in
                bind_err (c_incr mx) (\<lambda>count.
                bind_err (modify_at ?qs k (\<lambda>line. line\<lparr>tag := t, access_count := count\<rparr>))
                  (\<lambda>query_set. Inr (c[unat si := query_set], par3))))
              else
                bind_err (get_empty_line ?qs (par\<lparr>misses := misses par + 1\<rparr>)) (\<lambda>empty_line_index.
                bind_err (c_incr mx) (\<lambda>count.
                bind_err (modify_at ?qs empty_line_index
                            (\<lambda>line. line\<lparr>tag := t, valid := 1, access_count := count\<rparr>))
                  (\<lambda>query_set. Inr (c[unat si := query_set], par\<lparr>misses := misses par + 1\<rparr>)))))
             = Inr (c', par')"
      by (auto simp: bind_err_Inr_iff c_incr_Inr Let_def)
    show ?thesis
    proof (cases "cf1 \<noteq> 0")
      case True
      with r3 have f: "k < length ?qs"
        "c' = c[unat si := ?qs[k := (?qs ! k)\<lparr>tag := t, access_count := mx + 1\<rparr>]]"
        "par' = par\<lparr>misses := misses par + 1, evictions := evictions par + 1\<rparr>"
        by (auto simp: bind_err_Inr_iff c_incr_Inr modify_at_Inr Let_def)
      have "tag ((?qs ! k)\<lparr>tag := t, access_count := mx + 1\<rparr>) = t" by simp
      with f show ?thesis
        using ab si nohit by (intro miss [of t si k "(?qs ! k)\<lparr>tag := t, access_count := mx + 1\<rparr>"]) simp_all
    next
      case False
      with r3 obtain k0 where f: "k0 < length ?qs"
        "c' = c[unat si := ?qs[k0 := (?qs ! k0)\<lparr>tag := t, valid := 1, access_count := mx + 1\<rparr>]]"
        "par' = par\<lparr>misses := misses par + 1\<rparr>"
        by (auto simp: bind_err_Inr_iff c_incr_Inr modify_at_Inr Let_def)
      have "tag ((?qs ! k0)\<lparr>tag := t, valid := 1, access_count := mx + 1\<rparr>) = t" by simp
      with f show ?thesis
        using ab si nohit
        by (intro miss [of t si k0 "(?qs ! k0)\<lparr>tag := t, valid := 1, access_count := mx + 1\<rparr>"])
           simp_all
    qed
  qed
qed



subsection \<open>Invariants of an access\<close>

lemma simulate_cache_counters:
  assumes "simulate_cache c par a = Inr (c', par')"
  shows "s par' = s par \<and> b par' = b par \<and> E par' = E par \<and> S par' = S par \<and> B par' = B par"
    and "(hits par < hits par' \<and> misses par' = misses par \<and> evictions par' = evictions par)
       \<or> (hits par' = hits par \<and> misses par' = misses par + 1
           \<and> (evictions par' = evictions par \<or> evictions par' = evictions par + 1))"
    and "length c' = length c"
proof -
  have "(s par' = s par \<and> b par' = b par \<and> E par' = E par \<and> S par' = S par \<and> B par' = B par)
     \<and> ((hits par < hits par' \<and> misses par' = misses par \<and> evictions par' = evictions par)
       \<or> (hits par' = hits par \<and> misses par' = misses par + 1
           \<and> (evictions par' = evictions par \<or> evictions par' = evictions par + 1)))
     \<and> length c' = length c"
    using assms
  proof (cases rule: simulate_cache_cases)
    case (hit t si qs')
    obtain h where "par' = par\<lparr>hits := h\<rparr>" using hit(4) by blast
    then have "s par' = s par \<and> b par' = b par \<and> E par' = E par \<and> S par' = S par \<and> B par' = B par
      \<and> misses par' = misses par \<and> evictions par' = evictions par"
      by simp
    then show ?thesis using hit(3,5) by simp
  next
    case (miss t si k l')
    from miss(7) have "s par' = s par \<and> b par' = b par \<and> E par' = E par \<and> S par' = S par \<and> B par' = B par
      \<and> hits par' = hits par \<and> misses par' = misses par + 1
      \<and> (evictions par' = evictions par \<or> evictions par' = evictions par + 1)"
      by auto
    then show ?thesis using miss(6) by simp
  qed
  then show "s par' = s par \<and> b par' = b par \<and> E par' = E par \<and> S par' = S par \<and> B par' = B par"
    and "(hits par < hits par' \<and> misses par' = misses par \<and> evictions par' = evictions par)
       \<or> (hits par' = hits par \<and> misses par' = misses par + 1
           \<and> (evictions par' = evictions par \<or> evictions par' = evictions par + 1))"
    and "length c' = length c"
    by blast+
qed


lemma simulate_cache_no_duplicates:
  assumes run: "simulate_cache c par a = Inr (c', par')"
    and len: "\<forall>qs\<in>set c. length qs = nat (E par)"
    and nodup: "\<forall>qs\<in>set c. no_duplicate_tags qs"
  shows "(\<forall>qs\<in>set c'. length qs = nat (E par')) \<and> (\<forall>qs\<in>set c'. no_duplicate_tags qs)"
proof -
  have E: "E par' = E par" using simulate_cache_counters(1) [OF run] by simp
  from run show ?thesis
  proof (cases rule: simulate_cache_cases)
    case (hit t si qs')
    let ?qs = "c ! unat si"
    have qs: "length ?qs = nat (E par)" "no_duplicate_tags ?qs"
      using hit(2) len nodup by simp_all
    have "\<forall>i<length ?qs. (valid (qs' ! i) \<noteq> 0) = (valid (?qs ! i) \<noteq> 0) \<and> tag (qs' ! i) = tag (?qs ! i)"
      using hit(6,7) by simp
    then have "no_duplicate_tags qs'"
      by (rule no_duplicate_tags_same_keys [OF qs(2) hit(6)])
    moreover have "length qs' = nat (E par')" using hit(6) qs(1) E by simp
    ultimately have "\<forall>qs\<in>set (c[unat si := qs']). length qs = nat (E par')"
      and "\<forall>qs\<in>set (c[unat si := qs']). no_duplicate_tags qs"
      using len nodup E set_update_subset_insert [of c "unat si" qs'] by auto
    then show ?thesis
      unfolding hit(5) by blast
  next
    case (miss t si k l')
    let ?qs = "c ! unat si"
    have qs: "length ?qs = nat (E par)" "no_duplicate_tags ?qs"
      using miss(2) len nodup by simp_all
    have "\<forall>l\<in>set ?qs. \<not> holds_tag t l"
      unfolding set_all_nth using miss(3) qs(1) by simp
    then have "no_duplicate_tags (?qs[k := l'])"
      by (rule no_duplicate_tags_new_tag [OF qs(2) _ miss(5)])
    moreover have "length (?qs[k := l']) = nat (E par')" using qs(1) E by simp
    ultimately have "\<forall>qs\<in>set (c[unat si := ?qs[k := l']]). length qs = nat (E par')"
      and "\<forall>qs\<in>set (c[unat si := ?qs[k := l']]). no_duplicate_tags qs"
      using len nodup E set_update_subset_insert [of c "unat si" "?qs[k := l']"] by auto
    then show ?thesis
      unfolding miss(6) by blast
  qed
qed


lemma simulate_cache_wf:
  assumes run: "simulate_cache c par a = Inr (c', par')"
    and cfg: "valid_config par" and wf: "wf_cache par c"
    and nodup: "\<forall>qs\<in>set c. no_duplicate_tags qs"
  shows "valid_config par' \<and> wf_cache par' c' \<and> (\<forall>qs\<in>set c'. no_duplicate_tags qs)
         \<and> address_bits par' = address_bits par"
proof -
  note same = simulate_cache_counters(1) [OF run]
  have len: "\<forall>qs\<in>set c. length qs = nat (E par)" using wf by (simp add: wf_cache_def)
  have "valid_config par'" using cfg same by (simp add: valid_config_def)
  moreover have "wf_cache par' c'"
    using simulate_cache_no_duplicates [OF run len nodup] wf simulate_cache_counters(3) [OF run] same
    by (simp add: wf_cache_def)
  moreover have "\<forall>qs\<in>set c'. no_duplicate_tags qs"
    using simulate_cache_no_duplicates [OF run len nodup] by simp
  moreover have "address_bits par' = address_bits par"
    using same by (intro ext) (simp add: address_bits_def)
  ultimately show ?thesis by blast
qed


lemma max_recency_in:
  assumes "qs \<noteq> []"
  shows "\<exists>l\<in>set qs. access_count l = max_recency qs"
proof -
  have "Max (access_count ` set qs) \<in> access_count ` set qs"
    using assms by (intro Max_in) simp_all
  then show ?thesis
    unfolding max_recency_def by auto
qed

lemma headroom_after:
  assumes room: "headroom (k + 1) par c" and i: "i < length c"
    and new: "access_count l' + k \<le> INT_MAX"
    and cnt: "hits par' \<le> hits par + 1" "misses par' \<le> misses par + 1"
             "evictions par' \<le> evictions par + 1"
  shows "headroom k par' (c[i := (c ! i)[j := l']])"
proof -
  have old: "\<forall>qs\<in>set c. \<forall>l\<in>set qs. access_count l + k \<le> INT_MAX"
    using room by (fastforce simp: headroom_def)
  have "\<forall>l\<in>set (c ! i). access_count l + k \<le> INT_MAX"
    using old nth_mem [OF i] by blast
  then have "\<forall>l\<in>set ((c ! i)[j := l']). access_count l + k \<le> INT_MAX"
    using new set_update_subset_insert [of "c ! i" j l'] by auto
  then have "\<forall>qs\<in>set (c[i := (c ! i)[j := l']]). \<forall>l\<in>set qs. access_count l + k \<le> INT_MAX"
    using old set_update_subset_insert [of c i "(c ! i)[j := l']"] by auto
  then show ?thesis
    using room cnt by (simp add: headroom_def)
qed

lemma holds_after_update:
  assumes "i < length c" "j < length (c ! i)" "holds_tag t l'"
  shows "\<exists>l\<in>set (c[i := (c ! i)[j := l']] ! i). holds_tag t l"
proof -
  have "l' \<in> set ((c ! i)[j := l'])"
    using assms(2) by (rule set_update_memI)
  then show ?thesis
    using assms(1,3) by auto
qed

lemma simulate_cache_step:
  assumes cfg: "valid_config par" and wf: "wf_cache par c"
    and nodup: "\<forall>qs\<in>set c. no_duplicate_tags qs"
    and room: "headroom (k + 1) par c" and k: "0 \<le> k"
  obtains c' par' t si where
    "simulate_cache c par a = Inr (c', par')"
    "address_bits par a = Inr (t, si)" "unat si < length c"
    "\<exists>l\<in>set (c' ! unat si). holds_tag t l"
    "headroom k par' c'"
    "(\<exists>l\<in>set (c ! unat si). holds_tag t l)
       \<and> counters par' = (hits par + 1, misses par, evictions par)
     \<or> (\<forall>l\<in>set (c ! unat si). \<not> holds_tag t l)
       \<and> (counters par' = (hits par, misses par + 1, evictions par)
          \<or> counters par' = (hits par, misses par + 1, evictions par + 1))"
proof -
  define t where "t = drop_bit (nat (s par + b par)) a"
  define si where "si = take_bit (nat (s par)) (drop_bit (nat (b par)) a)"
  have ab: "address_bits par a = Inr (t, si)"
    unfolding t_def si_def using cfg by (intro address_bits_valid) (simp_all add: valid_config_def)
  have si: "unat si < length c"
    using wf set_index_bound [of "nat (s par)" "drop_bit (nat (b par)) a"]
    by (simp add: wf_cache_def si_def)
  let ?qs = "c ! unat si"
  have len: "length ?qs = nat (E par)"
    using wf si by (simp add: wf_cache_def)
  have Epos: "0 < E par"
    using cfg by (simp add: valid_config_def)
  have ne: "?qs \<noteq> []" using len Epos by auto
  have cnt: "hits par < INT_MAX" "misses par < INT_MAX" "evictions par < INT_MAX"
    using room k by (simp_all add: headroom_def)
  have "\<forall>qs\<in>set c. \<forall>l\<in>set qs. access_count l + (k + 1) \<le> INT_MAX"
    using room by (simp add: headroom_def)
  then have lines: "\<forall>l\<in>set ?qs. access_count l + (k + 1) \<le> INT_MAX"
    using nth_mem [OF si] by blast
  obtain lm where lm: "lm \<in> set ?qs" "access_count lm = max_recency ?qs"
    using max_recency_in [OF ne] by blast
  have mx: "max_recency ?qs + 1 + k \<le> INT_MAX" "max_recency ?qs < INT_MAX"
    using lines lm k by fastforce+
  show ?thesis
  proof (cases "\<exists>l\<in>set ?qs. holds_tag t l")
    case True
    then obtain j where j: "j < length ?qs" "holds_tag t (?qs ! j)"
      by (auto simp: in_set_conv_nth)
    have uniq: "\<forall>i<length ?qs. i \<noteq> j \<longrightarrow> \<not> holds_tag t (?qs ! i)"
      using nodup si j unfolding no_duplicate_tags_nth holds_tag_def
      by (metis nth_mem)
    have acj: "access_count (?qs ! j) + (k + 1) \<le> INT_MAX"
      using lines j(1) by simp
    let ?l' = "(?qs ! j)\<lparr>access_count := access_count (?qs ! j) + 1\<rparr>"
    let ?c' = "c[unat si := ?qs[j := ?l']]"
    let ?par' = "par\<lparr>hits := hits par + 1\<rparr>"
    have run: "simulate_cache c par a = Inr (?c', ?par')"
      using acj k cnt by (intro simulate_cache_hit [OF ab si len j uniq]) simp_all
    have "holds_tag t ?l'" using j(2) by (simp add: holds_tag_def)
    then have held: "\<exists>l\<in>set (?c' ! unat si). holds_tag t l"
      using si j(1) by (intro holds_after_update)
    have room': "headroom k ?par' ?c'"
      using acj by (intro headroom_after [OF room si]) simp_all
    have "counters ?par' = (hits par + 1, misses par, evictions par)"
      by (simp add: counters_def)
    with True have "(\<exists>l\<in>set ?qs. holds_tag t l)
       \<and> counters ?par' = (hits par + 1, misses par, evictions par)
     \<or> (\<forall>l\<in>set ?qs. \<not> holds_tag t l)
       \<and> (counters ?par' = (hits par, misses par + 1, evictions par)
          \<or> counters ?par' = (hits par, misses par + 1, evictions par + 1))"
      by blast
    then show ?thesis by (rule that [OF run ab si held room'])
  next
    case False
    then have miss: "\<forall>l\<in>set ?qs. \<not> holds_tag t l" by blast
    show ?thesis
    proof (cases "\<exists>l\<in>set ?qs. valid l = 0")
      case True
      then obtain i where fi: "first_invalid ?qs i"
        using first_invalid_exists by blast
      then have i: "i < length ?qs" by (simp add: first_invalid_def)
      let ?l' = "(?qs ! i)\<lparr>tag := t, valid := 1, access_count := max_recency ?qs + 1\<rparr>"
      let ?c' = "c[unat si := ?qs[i := ?l']]"
      let ?par' = "par\<lparr>misses := misses par + 1\<rparr>"
      have run: "simulate_cache c par a = Inr (?c', ?par')"
        by (rule simulate_cache_fill [OF ab si len Epos miss fi cnt(2) mx(2)])
      have "holds_tag t ?l'" by (simp add: holds_tag_def)
      then have held: "\<exists>l\<in>set (?c' ! unat si). holds_tag t l"
        using si i by (intro holds_after_update)
      have room': "headroom k ?par' ?c'"
        using mx(1) by (intro headroom_after [OF room si]) simp_all
      have "counters ?par' = (hits par, misses par + 1, evictions par)"
        by (simp add: counters_def)
      with miss have "(\<exists>l\<in>set ?qs. holds_tag t l)
         \<and> counters ?par' = (hits par + 1, misses par, evictions par)
       \<or> (\<forall>l\<in>set ?qs. \<not> holds_tag t l)
         \<and> (counters ?par' = (hits par, misses par + 1, evictions par)
            \<or> counters ?par' = (hits par, misses par + 1, evictions par + 1))"
        by blast
      then show ?thesis by (rule that [OF run ab si held room'])
    next
      case False
      then have full: "\<forall>l\<in>set ?qs. valid l \<noteq> 0" by blast
      obtain i where v: "lru_victim ?qs i"
        using get_LRU_result [OF Epos len] by blast
      then have i: "i < length ?qs" by (simp add: lru_victim_def)
      let ?l' = "(?qs ! i)\<lparr>tag := t, access_count := max_recency ?qs + 1\<rparr>"
      let ?c' = "c[unat si := ?qs[i := ?l']]"
      let ?par' = "par\<lparr>misses := misses par + 1, evictions := evictions par + 1\<rparr>"
      have run: "simulate_cache c par a = Inr (?c', ?par')"
        by (rule simulate_cache_evict [OF ab si len Epos miss full v cnt(2,3) mx(2)])
      have "valid (?qs ! i) \<noteq> 0" using full i by simp
      then have "holds_tag t ?l'" by (simp add: holds_tag_def)
      then have held: "\<exists>l\<in>set (?c' ! unat si). holds_tag t l"
        using si i by (intro holds_after_update)
      have room': "headroom k ?par' ?c'"
        using mx(1) by (intro headroom_after [OF room si]) simp_all
      have "counters ?par' = (hits par, misses par + 1, evictions par + 1)"
        by (simp add: counters_def)
      with miss have "(\<exists>l\<in>set ?qs. holds_tag t l)
         \<and> counters ?par' = (hits par + 1, misses par, evictions par)
       \<or> (\<forall>l\<in>set ?qs. \<not> holds_tag t l)
         \<and> (counters ?par' = (hits par, misses par + 1, evictions par)
            \<or> counters ?par' = (hits par, misses par + 1, evictions par + 1))"
        by blast
      then show ?thesis by (rule that [OF run ab si held room'])
    qed
  qed
qed


subsection \<open>Runs\<close>

lemma simulate_cache_ok:
  assumes cfg: "valid_config par" and wf: "wf_cache par c"
    and nodup: "\<forall>qs\<in>set c. no_duplicate_tags qs"
    and room: "headroom (k + 1) par c" and k: "0 \<le> k"
  shows "\<exists>c' par'. simulate_cache c par a = Inr (c', par')
      \<and> valid_config par' \<and> wf_cache par' c' \<and> (\<forall>qs\<in>set c'. no_duplicate_tags qs)
      \<and> headroom k par' c'
      \<and> hits par' + misses par' = hits par + misses par + 1"
proof -
  obtain c' par' t si where run: "simulate_cache c par a = Inr (c', par')"
    and ab: "address_bits par a = Inr (t, si)"
    and room': "headroom k par' c'"
    and cnt: "(\<exists>l\<in>set (c ! unat si). holds_tag t l)
       \<and> counters par' = (hits par + 1, misses par, evictions par)
     \<or> (\<forall>l\<in>set (c ! unat si). \<not> holds_tag t l)
       \<and> (counters par' = (hits par, misses par + 1, evictions par)
          \<or> counters par' = (hits par, misses par + 1, evictions par + 1))"
    by (rule simulate_cache_step [OF cfg wf nodup room k, of a]) blast
  have "hits par' + misses par' = hits par + misses par + 1"
    using cnt by (auto simp: counters_def)
  then show ?thesis
    using run room' simulate_cache_wf [OF run cfg wf nodup] by blast
qed

lemma replay_total:
  assumes "valid_config par" "wf_cache par c" "\<forall>qs\<in>set c. no_duplicate_tags qs"
    and "headroom (int (accesses records)) par c"
  shows "\<exists>c' par'. replay records c par = Inr (c', par')
      \<and> valid_config par' \<and> wf_cache par' c' \<and> (\<forall>qs\<in>set c'. no_duplicate_tags qs)
      \<and> hits par' + misses par' = hits par + misses par + int (accesses records)"
  using assms
proof (induction records arbitrary: c par)
  case Nil
  then show ?case by simp
next
  case (Cons r rest)
  obtain cmd address sz where r: "r = (cmd, address, sz)" by (cases r) auto
  let ?n = "int (accesses rest)"
  consider (one) "cmd = CHR ''L'' \<or> cmd = CHR ''S''" | (two) "cmd = CHR ''M''"
    | (none) "cmd \<noteq> CHR ''L''" "cmd \<noteq> CHR ''S''" "cmd \<noteq> CHR ''M''"
    by blast
  then show ?case
  proof cases
    case one
    then have "int (accesses (r # rest)) = ?n + 1" using r by auto
    then have "headroom (?n + 1) par c" using Cons.prems(4) by simp
    from simulate_cache_ok [OF Cons.prems(1-3) this, of address]
    obtain c1 par1 where run: "simulate_cache c par address = Inr (c1, par1)"
      and inv: "valid_config par1" "wf_cache par1 c1" "\<forall>qs\<in>set c1. no_duplicate_tags qs"
        "headroom ?n par1 c1"
      and cnt: "hits par1 + misses par1 = hits par + misses par + 1"
      by auto
    from Cons.IH [OF inv] obtain c' par' where
      "replay rest c1 par1 = Inr (c', par')"
      "valid_config par'" "wf_cache par' c'" "\<forall>qs\<in>set c'. no_duplicate_tags qs"
      "hits par' + misses par' = hits par1 + misses par1 + ?n"
      by blast
    then show ?thesis
      using one run cnt r by (auto simp: bind_err_simps)
  next
    case two
    then have "int (accesses (r # rest)) = (?n + 1) + 1" using r by auto
    then have "headroom ((?n + 1) + 1) par c" using Cons.prems(4) by simp
    from simulate_cache_ok [OF Cons.prems(1-3) this, of address]
    obtain c1 par1 where run1: "simulate_cache c par address = Inr (c1, par1)"
      and inv1: "valid_config par1" "wf_cache par1 c1" "\<forall>qs\<in>set c1. no_duplicate_tags qs"
        "headroom (?n + 1) par1 c1"
      and cnt1: "hits par1 + misses par1 = hits par + misses par + 1"
      by auto
    from simulate_cache_ok [OF inv1, of address]
    obtain c2 par2 where run2: "simulate_cache c1 par1 address = Inr (c2, par2)"
      and inv2: "valid_config par2" "wf_cache par2 c2" "\<forall>qs\<in>set c2. no_duplicate_tags qs"
        "headroom ?n par2 c2"
      and cnt2: "hits par2 + misses par2 = hits par1 + misses par1 + 1"
      by auto
    from Cons.IH [OF inv2] obtain c' par' where
      "replay rest c2 par2 = Inr (c', par')"
      "valid_config par'" "wf_cache par' c'" "\<forall>qs\<in>set c'. no_duplicate_tags qs"
      "hits par' + misses par' = hits par2 + misses par2 + ?n"
      by blast
    then show ?thesis
      using two run1 run2 cnt1 cnt2 r by (auto simp: bind_err_simps)
  next
    case none
    then have "int (accesses (r # rest)) = ?n" using r by auto
    then have "headroom ?n par c" using Cons.prems(4) by simp
    from Cons.IH [OF Cons.prems(1-3) this] obtain c' par' where
      "replay rest c par = Inr (c', par')"
      "valid_config par'" "wf_cache par' c'" "\<forall>qs\<in>set c'. no_duplicate_tags qs"
      "hits par' + misses par' = hits par + misses par + ?n"
      by blast
    then show ?thesis
      using none r by (auto split: if_splits)
  qed
qed

lemma replay_counters:
  assumes "replay records c par = Inr (c', par')"
  shows "hits par \<le> hits par' \<and> misses par \<le> misses par' \<and> evictions par \<le> evictions par'
       \<and> evictions par' - evictions par \<le> misses par' - misses par"
  using assms
proof (induction records arbitrary: c par)
  case Nil
  then show ?case by simp
next
  case (Cons r rest)
  obtain cmd address sz where r: "r = (cmd, address, sz)" by (cases r) auto
  have one: "\<And>c0 p0 c1 p1. simulate_cache c0 p0 address = Inr (c1, p1) \<Longrightarrow>
      hits p0 \<le> hits p1 \<and> misses p0 \<le> misses p1 \<and> evictions p0 \<le> evictions p1
       \<and> evictions p1 - evictions p0 \<le> misses p1 - misses p0"
    using simulate_cache_counters(2) by fastforce
  consider (one) "cmd = CHR ''L'' \<or> cmd = CHR ''S''" | (two) "cmd = CHR ''M''"
    | (none) "cmd \<noteq> CHR ''L''" "cmd \<noteq> CHR ''S''" "cmd \<noteq> CHR ''M''"
    by blast
  then show ?case
  proof cases
    case one
    with Cons.prems r obtain c1 par1 where run: "simulate_cache c par address = Inr (c1, par1)"
      and rest: "replay rest c1 par1 = Inr (c', par')"
      by (auto simp: bind_err_Inr_iff split: if_splits)
    show ?thesis
      using \<open>\<And>c0 p0 c1 p1. simulate_cache c0 p0 address = Inr (c1, p1) \<Longrightarrow> _\<close> [OF run]
        Cons.IH [OF rest] by linarith
  next
    case two
    with Cons.prems r obtain c1 par1 c2 par2 where
      run1: "simulate_cache c par address = Inr (c1, par1)"
      and run2: "simulate_cache c1 par1 address = Inr (c2, par2)"
      and rest: "replay rest c2 par2 = Inr (c', par')"
      by (auto simp: bind_err_Inr_iff split: if_splits)
    show ?thesis
      using \<open>\<And>c0 p0 c1 p1. simulate_cache c0 p0 address = Inr (c1, p1) \<Longrightarrow> _\<close> [OF run1]
        \<open>\<And>c0 p0 c1 p1. simulate_cache c0 p0 address = Inr (c1, p1) \<Longrightarrow> _\<close> [OF run2]
        Cons.IH [OF rest] by linarith
  next
    case none
    with Cons.prems r have "replay rest c par = Inr (c', par')" by (simp split: if_splits)
    from Cons.IH [OF this] show ?thesis .
  qed
qed

lemma main_valid:
  assumes "1 \<le> s0" "s0 \<le> 30" "1 \<le> b0" "s0 + b0 \<le> 63"
  shows "main s0 E0 b0 (Some f) records =
     (if E0 = 0 then Inl Missing_argument
      else replay records
        (replicate (2 ^ nat s0) (replicate (nat E0) \<lparr>valid = 0, access_count = 0, tag = 0\<rparr>))
        \<lparr>s = s0, b = b0, E = E0, S = 0, B = 0, hits = 0, misses = 0, evictions = 0\<rparr>)"
proof -
  have "(2 :: int) ^ nat s0 \<le> 2 ^ 30"
    using assms by (intro power_increasing) simp_all
  then have small: "\<not> (2 :: int) ^ nat s0 > INT_MAX"
    by (simp add: INT_MAX_def)
  have n: "nat ((2 :: int) ^ nat s0) = 2 ^ nat s0"
    by (simp add: nat_power_eq)
  show ?thesis
    using assms small
    by (simp add: main_def pow2_sets_def bit_pow_def build_cache_def bind_err_simps n)
qed

lemma initial_cache:
  assumes "1 \<le> s0" "1 \<le> b0" "s0 + b0 \<le> 63" "1 \<le> E0" "k \<le> INT_MAX"
  defines "par0 \<equiv> \<lparr>s = s0, b = b0, E = E0, S = 0, B = 0, hits = 0, misses = 0, evictions = 0\<rparr>"
    and "c0 \<equiv> replicate (2 ^ nat s0) (replicate (nat E0) \<lparr>valid = 0, access_count = 0, tag = 0\<rparr>)"
  shows "valid_config par0" "wf_cache par0 c0" "\<forall>qs\<in>set c0. no_duplicate_tags qs"
    "headroom k par0 c0"
  using assms by (auto simp: valid_config_def wf_cache_def no_duplicate_tags_def headroom_def)

lemma main_Inr:
  assumes "main s0 E0 b0 tf records = Inr (c, par)"
  shows "\<exists>c0. replay records c0
           \<lparr>s = s0, b = b0, E = E0, S = 0, B = 0, hits = 0, misses = 0, evictions = 0\<rparr> = Inr (c, par)"
  using assms
  by (auto simp: main_def Let_def bind_err_Inr_iff split: if_splits option.splits)

lemma accesses_take: "accesses (take n records) \<le> accesses records"
proof (induction records arbitrary: n)
  case Nil
  show ?case by simp
next
  case (Cons r rest)
  obtain cmd address sz where r: "r = (cmd, address, sz)" by (cases r) auto
  show ?case
  proof (cases n)
    case 0
    then show ?thesis by simp
  next
    case (Suc m)
    then show ?thesis using Cons.IH [of m] r by simp
  qed
qed

lemma main_total:
  assumes "1 \<le> s0" "s0 \<le> 30" "1 \<le> b0" "s0 + b0 \<le> 63" "1 \<le> E0"
    and "int (accesses records) \<le> INT_MAX"
  shows "\<exists>c par. main s0 E0 b0 (Some f) records = Inr (c, par)
      \<and> hits par + misses par = int (accesses records)"
proof -
  let ?par0 = "\<lparr>s = s0, b = b0, E = E0, S = 0, B = 0, hits = 0, misses = 0, evictions = 0\<rparr>"
  let ?c0 = "replicate (2 ^ nat s0) (replicate (nat E0) \<lparr>valid = 0, access_count = 0, tag = 0\<rparr>)"
  have m: "main s0 E0 b0 (Some f) records = replay records ?c0 ?par0"
    using main_valid [OF assms(1-4), of E0 f records] assms(5) by simp
  from replay_total [OF initial_cache [OF assms(1,3,4,5,6)]]
  obtain c par where "replay records ?c0 ?par0 = Inr (c, par)"
    "hits par + misses par = hits ?par0 + misses ?par0 + int (accesses records)"
    by blast
  then show ?thesis unfolding m by auto
qed

lemma build_cache_sets:
  assumes "build_cache num_sets num_lines block_size = Inr c"
  shows "(\<forall>qs\<in>set c. length qs = nat num_lines) \<and> (\<forall>qs\<in>set c. no_duplicate_tags qs)"
  using assms by (auto simp: build_cache_def no_duplicate_tags_def split: if_splits)

lemma reachable_invariant:
  assumes "reachable par0 st"
  shows "(\<forall>qs\<in>set (fst st). length qs = nat (E (snd st)))
       \<and> (\<forall>qs\<in>set (fst st). no_duplicate_tags qs)"
  using assms
proof (induction rule: reachable.induct)
  case (start num_sets block_size c)
  then show ?case using build_cache_sets by simp
next
  case (step c par a c' par')
  then show ?case
    using simulate_cache_no_duplicates [of c par a c' par'] by simp
qed

subsection \<open>The usage error comes from the check of the arguments only\<close>

lemma bind_err_Inl_iff:
  "bind_err m f = Inl e \<longleftrightarrow> m = Inl e \<or> (\<exists>x. m = Inr x \<and> f x = Inl e)"
  by (cases m) (simp_all add: bind_err_def)

lemma for_loop_not_missing:
  assumes "\<And>i st. body i st \<noteq> Inl Missing_argument"
  shows "for_loop body idxs st \<noteq> Inl Missing_argument"
  using assms by (induction idxs arbitrary: st) (auto simp: bind_err_Inl_iff)

lemma primitives_not_missing:
  "c_incr x \<noteq> Inl Missing_argument"
  "shl64 w k \<noteq> Inl Missing_argument"
  "shr64 w k \<noteq> Inl Missing_argument"
  "at_index xs i \<noteq> Inl Missing_argument"
  "modify_at xs i g \<noteq> Inl Missing_argument"
  by (simp_all add: c_incr_def shl64_def shr64_def at_index_def modify_at_def)

lemma hit_scan_step_not_missing: "hit_scan_step t i st \<noteq> Inl Missing_argument"
  by (cases st) (auto simp: hit_scan_step_def bind_err_Inl_iff primitives_not_missing)

lemma get_LRU_not_missing: "get_LRU qs par \<noteq> Inl Missing_argument"
proof -
  have "\<And>i st. get_LRU_step qs i st \<noteq> Inl Missing_argument"
    by (auto simp: get_LRU_step_def bind_err_Inl_iff primitives_not_missing split: prod.splits)
  then have "\<And>idxs st. for_loop (get_LRU_step qs) idxs st \<noteq> Inl Missing_argument"
    by (rule for_loop_not_missing)
  then show ?thesis
    by (auto simp: get_LRU_def bind_err_Inl_iff primitives_not_missing split: prod.splits)
qed

lemma get_empty_line_not_missing: "get_empty_line qs par \<noteq> Inl Missing_argument"
proof -
  have "\<And>idxs. get_empty_line_loop qs idxs \<noteq> Inl Missing_argument"
  proof -
    fix idxs show "get_empty_line_loop qs idxs \<noteq> Inl Missing_argument"
      by (induction idxs) (auto simp: bind_err_Inl_iff primitives_not_missing)
  qed
  then show ?thesis by (simp add: get_empty_line_def)
qed

lemma address_bits_not_missing: "address_bits par a \<noteq> Inl Missing_argument"
  by (auto simp: address_bits_def Let_def bind_err_Inl_iff primitives_not_missing)

lemma simulate_cache_not_missing: "simulate_cache c par a \<noteq> Inl Missing_argument"
proof -
  have scan: "\<And>t idxs st. for_loop (hit_scan_step t) idxs st \<noteq> Inl Missing_argument"
    by (rule for_loop_not_missing) (rule hit_scan_step_not_missing)
  show ?thesis
    by (auto simp: simulate_cache_def Let_def bind_err_Inl_iff primitives_not_missing scan
        address_bits_not_missing get_LRU_not_missing get_empty_line_not_missing
        split: prod.splits if_splits)
qed

lemma replay_not_missing: "replay records c par \<noteq> Inl Missing_argument"
proof (induction records arbitrary: c par)
  case Nil
  show ?case by simp
next
  case (Cons r rest)
  obtain cmd address sz where r: "r = (cmd, address, sz)" by (cases r) auto
  show ?case
    unfolding r
    by (auto simp: bind_err_Inl_iff simulate_cache_not_missing Cons.IH split: prod.splits)
qed

subsection \<open>Filling an empty set\<close>

lemma replay_append:
  "replay (xs @ ys) c par = bind_err (replay xs c par) (\<lambda>(c', par'). replay ys c' par')"
proof (induction xs arbitrary: c par)
  case Nil
  show ?case by (simp add: bind_err_simps)
next
  case (Cons r rest)
  obtain cmd address sz where r: "r = (cmd, address, sz)" by (cases r) auto
  show ?case
    unfolding r by (auto simp: bind_err_def Cons.IH split: sum.splits prod.splits)
qed

lemma filling_length: "j \<le> n \<Longrightarrow> length (filling ts j n) = n"
  by (simp add: filling_def)

lemma filling_nth:
  assumes "i < n" "j \<le> n"
  shows "filling ts j n ! i =
           (if i < j then loaded_line ts i else \<lparr>valid = 0, access_count = 0, tag = 0\<rparr>)"
  using assms by (auto simp: filling_def nth_append)

lemma filling_max_recency:
  assumes "j \<le> n" "0 < n"
  shows "max_recency (filling ts j n) = int j"
proof -
  let ?A = "access_count ` set (filling ts j n)"
  have mem: "int j \<in> ?A"
  proof (cases j)
    case 0
    then have "\<lparr>valid = 0, access_count = 0, tag = 0\<rparr> \<in> set (filling ts j n)"
      using assms by (simp add: filling_def)
    then have "access_count \<lparr>valid = 0, access_count = 0, tag = 0\<rparr> \<in> ?A"
      by (rule imageI)
    then show ?thesis using 0 by simp
  next
    case (Suc m)
    then have "loaded_line ts m \<in> set (filling ts j n)"
      by (simp add: filling_def)
    then have "access_count (loaded_line ts m) \<in> ?A"
      by (rule imageI)
    then show ?thesis using Suc by (simp add: loaded_line_def add.commute)
  qed
  have le: "\<And>y. y \<in> ?A \<Longrightarrow> y \<le> int j"
    by (auto simp: filling_def loaded_line_def)
  show ?thesis
    unfolding max_recency_def using le mem by (intro Max_eqI) simp_all
qed

lemma filling_step:
  assumes "j < n"
  shows "(filling ts j n)[j := (filling ts j n ! j)
            \<lparr>tag := ts ! j, valid := 1, access_count := int j + 1\<rparr>] = filling ts (Suc j) n"
proof (rule nth_equalityI)
  show "length ((filling ts j n)[j := (filling ts j n ! j)
            \<lparr>tag := ts ! j, valid := 1, access_count := int j + 1\<rparr>]) = length (filling ts (Suc j) n)"
    using assms by (simp add: filling_length)
next
  fix i
  assume "i < length ((filling ts j n)[j := (filling ts j n ! j)
            \<lparr>tag := ts ! j, valid := 1, access_count := int j + 1\<rparr>])"
  then have i: "i < n" using assms by (simp add: filling_length)
  show "(filling ts j n)[j := (filling ts j n ! j)
            \<lparr>tag := ts ! j, valid := 1, access_count := int j + 1\<rparr>] ! i = filling ts (Suc j) n ! i"
    using i assms
    by (cases "i = j") (simp_all add: filling_length filling_nth loaded_line_def)
qed

lemma filling_prefix:
  assumes cfg: "valid_config par" and si: "unat si < length c"
    and empty: "c ! unat si = replicate (nat (E par)) \<lparr>valid = 0, access_count = 0, tag = 0\<rparr>"
    and len: "nat (E par) = length ts" "length as = length ts" and dist: "distinct ts"
    and ab: "\<forall>i<length ts. address_bits par (as ! i) = Inr (ts ! i, si)"
    and room: "misses par + int (length ts) < INT_MAX" "int (length ts) < INT_MAX"
    and j: "j \<le> length ts"
  shows "replay (map (\<lambda>a. (CHR ''L'', a, sz)) (take j as)) c par =
           Inr (c[unat si := filling ts j (length ts)], par\<lparr>misses := misses par + int j\<rparr>)"
  using j
proof (induction j)
  case 0
  have "filling ts 0 (length ts) = c ! unat si"
    by (simp add: filling_def empty len)
  then show ?case by simp
next
  case (Suc j)
  let ?n = "length ts"
  let ?cj = "c[unat si := filling ts j ?n]"
  let ?pj = "par\<lparr>misses := misses par + int j\<rparr>"
  have j: "j < ?n" using Suc.prems by simp
  have IH: "replay (map (\<lambda>a. (CHR ''L'', a, sz)) (take j as)) c par = Inr (?cj, ?pj)"
    using Suc by simp
  have tk: "take (Suc j) as = take j as @ [as ! j]"
    using j len by (simp add: take_Suc_conv_app_nth)
  have abj: "address_bits ?pj (as ! j) = Inr (ts ! j, si)"
    using ab j by (simp add: address_bits_def)
  have sj: "unat si < length ?cj" using si by simp
  have qs: "?cj ! unat si = filling ts j ?n" using si by simp
  have lenj: "length (?cj ! unat si) = nat (E ?pj)"
    using j len by (simp add: qs filling_length)
  have Epos: "0 < E ?pj" using cfg by (simp add: valid_config_def)
  have miss: "\<forall>l\<in>set (?cj ! unat si). \<not> holds_tag (ts ! j) l"
    unfolding qs set_all_nth
  proof (intro allI impI)
    fix i assume "i < length (filling ts j ?n)"
    then have i: "i < ?n" using j by (simp add: filling_length)
    show "\<not> holds_tag (ts ! j) (filling ts j ?n ! i)"
    proof (cases "i < j")
      case True
      then have "ts ! i \<noteq> ts ! j"
        using dist j by (simp add: nth_eq_iff_index_eq)
      then show ?thesis
        using True i j by (simp add: filling_nth holds_tag_def loaded_line_def)
    next
      case False
      then show ?thesis
        using i j by (simp add: filling_nth holds_tag_def)
    qed
  qed
  have fi: "first_invalid (?cj ! unat si) j"
    unfolding qs first_invalid_def set_take_nth
    using j by (simp add: filling_length filling_nth loaded_line_def)
  have mx: "max_recency (filling ts j ?n) = int j"
    using j by (intro filling_max_recency) auto
  have bnd: "misses ?pj < INT_MAX" "max_recency (?cj ! unat si) < INT_MAX"
    using room j unfolding qs mx by simp_all
  have run: "simulate_cache ?cj ?pj (as ! j) =
      Inr (c[unat si := filling ts (Suc j) ?n], par\<lparr>misses := misses par + int (Suc j)\<rparr>)"
    unfolding simulate_cache_fill [OF abj sj lenj Epos miss fi bnd]
    unfolding qs mx filling_step [OF j]
    by (simp add: add.assoc)
  show ?case
    unfolding tk map_append replay_append IH
    by (simp add: bind_err_simps run)
qed

section \<open>The claims\<close>

subsection \<open>C1: what a miss does\<close>

text \<open>
  C1. For every cache access that misses (no valid line of the target set holds the input
  tag): if the set has an invalid line, the lowest-indexed invalid line is marked valid,
  given the input tag and given the recency \<open>max_recency + 1\<close> of the set, and only
  \<open>misses\<close> is incremented; if every line of the set is valid, \<open>evictions\<close> is
  incremented as well and the victim is the line of minimum recency (the lowest-indexed
  among equals), whose tag is overwritten with the input tag and whose recency becomes the
  maximum recency of the set before the overwrite, plus 1. One of the two cases always
  applies. The counters and the maximum recency are below \<open>INT_MAX\<close>, beyond which the
  C increments are undefined.
\<close>

theorem miss_fills_or_evicts:
  assumes cfg: "valid_config par" and wf: "wf_cache par c"
    and ab: "address_bits par a = Inr (t, si)"
    and miss: "\<forall>l\<in>set (c ! unat si). \<not> holds_tag t l"
    and bnd: "misses par < INT_MAX" "max_recency (c ! unat si) < INT_MAX"
  shows "(first_invalid (c ! unat si) k \<longrightarrow>
            simulate_cache c par a =
              Inr (c[unat si := (c ! unat si)[k := (c ! unat si ! k)
                      \<lparr>tag := t, valid := 1, access_count := max_recency (c ! unat si) + 1\<rparr>]],
                   par\<lparr>misses := misses par + 1\<rparr>))
       \<and> ((\<forall>l\<in>set (c ! unat si). valid l \<noteq> 0) \<and> lru_victim (c ! unat si) k
            \<and> evictions par < INT_MAX \<longrightarrow>
            simulate_cache c par a =
              Inr (c[unat si := (c ! unat si)[k := (c ! unat si ! k)
                      \<lparr>tag := t, access_count := max_recency (c ! unat si) + 1\<rparr>]],
                   par\<lparr>misses := misses par + 1, evictions := evictions par + 1\<rparr>))
       \<and> ((\<exists>k. first_invalid (c ! unat si) k)
            \<or> (\<forall>l\<in>set (c ! unat si). valid l \<noteq> 0) \<and> (\<exists>k. lru_victim (c ! unat si) k))"
proof -
  let ?qs = "c ! unat si"
  have si_eq: "si = take_bit (nat (s par)) (drop_bit (nat (b par)) a)"
    using address_bits_valid [of par a] cfg ab by (simp add: valid_config_def)
  have si: "unat si < length c"
    using wf set_index_bound [of "nat (s par)" "drop_bit (nat (b par)) a"]
    by (simp add: wf_cache_def si_eq)
  have len: "length ?qs = nat (E par)"
    using wf si by (simp add: wf_cache_def)
  have Epos: "0 < E par"
    using cfg by (simp add: valid_config_def)
  have fill: "first_invalid ?qs k \<longrightarrow> simulate_cache c par a =
      Inr (c[unat si := ?qs[k := (?qs ! k)
              \<lparr>tag := t, valid := 1, access_count := max_recency ?qs + 1\<rparr>]],
           par\<lparr>misses := misses par + 1\<rparr>)"
    using simulate_cache_fill [OF ab si len Epos miss _ bnd] by blast
  have evict: "(\<forall>l\<in>set ?qs. valid l \<noteq> 0) \<and> lru_victim ?qs k \<and> evictions par < INT_MAX \<longrightarrow>
      simulate_cache c par a =
        Inr (c[unat si := ?qs[k := (?qs ! k)\<lparr>tag := t, access_count := max_recency ?qs + 1\<rparr>]],
             par\<lparr>misses := misses par + 1, evictions := evictions par + 1\<rparr>)"
    using simulate_cache_evict [OF ab si len Epos miss _ _ bnd(1) _ bnd(2)] by blast
  have some: "(\<exists>k. first_invalid ?qs k)
      \<or> (\<forall>l\<in>set ?qs. valid l \<noteq> 0) \<and> (\<exists>k. lru_victim ?qs k)"
  proof (cases "\<exists>l\<in>set ?qs. valid l = 0")
    case True
    then show ?thesis using first_invalid_exists by blast
  next
    case False
    moreover have "\<exists>k. lru_victim ?qs k"
      using get_LRU_result [OF Epos len] by blast
    ultimately show ?thesis by blast
  qed
  from fill evict some show ?thesis by blast
qed

text \<open>
  A set of two lines whose first line is free takes the tag in line 0; a full set whose
  lines have recencies 1 and 2 loses line 0.
\<close>

theorem miss_fills_or_evicts_witness:
  "simulate_cache
     [[\<lparr>valid = 0, access_count = 0, tag = 0\<rparr>, \<lparr>valid = 0, access_count = 0, tag = 0\<rparr>],
      [\<lparr>valid = 0, access_count = 0, tag = 0\<rparr>, \<lparr>valid = 0, access_count = 0, tag = 0\<rparr>]]
     \<lparr>s = 1, b = 1, E = 2, S = 0, B = 0, hits = 0, misses = 0, evictions = 0\<rparr> 4
   = Inr ([[\<lparr>valid = 1, access_count = 1, tag = 1\<rparr>, \<lparr>valid = 0, access_count = 0, tag = 0\<rparr>],
           [\<lparr>valid = 0, access_count = 0, tag = 0\<rparr>, \<lparr>valid = 0, access_count = 0, tag = 0\<rparr>]],
          \<lparr>s = 1, b = 1, E = 2, S = 0, B = 0, hits = 0, misses = 1, evictions = 0\<rparr>)
   \<and> simulate_cache
     [[\<lparr>valid = 1, access_count = 1, tag = 0\<rparr>, \<lparr>valid = 1, access_count = 2, tag = 1\<rparr>],
      [\<lparr>valid = 0, access_count = 0, tag = 0\<rparr>, \<lparr>valid = 0, access_count = 0, tag = 0\<rparr>]]
     \<lparr>s = 1, b = 1, E = 2, S = 0, B = 0, hits = 0, misses = 2, evictions = 0\<rparr> 8
   = Inr ([[\<lparr>valid = 1, access_count = 3, tag = 2\<rparr>, \<lparr>valid = 1, access_count = 2, tag = 1\<rparr>],
           [\<lparr>valid = 0, access_count = 0, tag = 0\<rparr>, \<lparr>valid = 0, access_count = 0, tag = 0\<rparr>]],
          \<lparr>s = 1, b = 1, E = 2, S = 0, B = 0, hits = 0, misses = 3, evictions = 1\<rparr>)"
proof -
  let ?inv = "\<lparr>valid = 0, access_count = 0, tag = 0\<rparr>"
  let ?c1 = "[[?inv, ?inv], [?inv, ?inv]]"
  let ?p1 = "\<lparr>s = 1, b = 1, E = 2, S = 0, B = 0, hits = 0, misses = 0, evictions = 0\<rparr>"
  let ?c2 = "[[\<lparr>valid = 1, access_count = 1, tag = 0\<rparr>, \<lparr>valid = 1, access_count = 2, tag = 1\<rparr>],
              [?inv, ?inv]]"
  let ?p2 = "\<lparr>s = 1, b = 1, E = 2, S = 0, B = 0, hits = 0, misses = 2, evictions = 0\<rparr>"
  have cfg1: "valid_config ?p1" and cfg2: "valid_config ?p2"
    by (simp_all add: valid_config_def)
  have wf1: "wf_cache ?p1 ?c1" and wf2: "wf_cache ?p2 ?c2"
    by (simp_all add: wf_cache_def)
  have ab1: "address_bits ?p1 4 = Inr (1, 0)" and ab2: "address_bits ?p2 8 = Inr (2, 0)"
    by (simp_all add: address_bits_def shl64_def shr64_def bind_err_simps)
  have miss1: "\<forall>l\<in>set (?c1 ! unat (0 :: mem_addr_t)). \<not> holds_tag 1 l"
    and miss2: "\<forall>l\<in>set (?c2 ! unat (0 :: mem_addr_t)). \<not> holds_tag 2 l"
    by (simp_all add: holds_tag_def)
  have bnd1: "misses ?p1 < INT_MAX" "max_recency (?c1 ! unat (0 :: mem_addr_t)) < INT_MAX"
    and bnd2: "misses ?p2 < INT_MAX" "max_recency (?c2 ! unat (0 :: mem_addr_t)) < INT_MAX"
    by (simp_all add: INT_MAX_def max_recency_def)
  have fi: "first_invalid (?c1 ! unat (0 :: mem_addr_t)) 0"
    by (simp add: first_invalid_def)
  have full: "(\<forall>l\<in>set (?c2 ! unat (0 :: mem_addr_t)). valid l \<noteq> 0)
      \<and> lru_victim (?c2 ! unat (0 :: mem_addr_t)) 0 \<and> evictions ?p2 < INT_MAX"
    by (simp add: lru_victim_def INT_MAX_def)
  from miss_fills_or_evicts [OF cfg1 wf1 ab1 miss1 bnd1, of 0] fi
    miss_fills_or_evicts [OF cfg2 wf2 ab2 miss2 bnd2, of 0] full
  show ?thesis
    by (simp add: max_recency_def)
qed

subsection \<open>C2: what a hit does\<close>

text \<open>
  C2. For every cache access where a valid line of the target set holds the input tag, in
  a cache whose target set holds no tag twice (the invariant of C8): the recency of that
  line is incremented by exactly 1, \<open>hits\<close> is incremented by exactly 1, and nothing
  else changes: the result is the old cache with that one recency replaced, and the old
  \<open>par\<close> with \<open>hits\<close> replaced. The scan goes on after the hit, and finds no other.
  The recency and \<open>hits\<close> are below \<open>INT_MAX\<close>.
\<close>

theorem hit_touches_one_line:
  assumes cfg: "valid_config par" and wf: "wf_cache par c"
    and ab: "address_bits par a = Inr (t, si)"
    and nodup: "no_duplicate_tags (c ! unat si)"
    and j: "j < length (c ! unat si)" "holds_tag t (c ! unat si ! j)"
    and bnd: "access_count (c ! unat si ! j) < INT_MAX" "hits par < INT_MAX"
  shows "simulate_cache c par a =
           Inr (c[unat si := (c ! unat si)[j := (c ! unat si ! j)
                   \<lparr>access_count := access_count (c ! unat si ! j) + 1\<rparr>]],
                par\<lparr>hits := hits par + 1\<rparr>)"
proof -
  let ?qs = "c ! unat si"
  have si_eq: "si = take_bit (nat (s par)) (drop_bit (nat (b par)) a)"
    using address_bits_valid [of par a] cfg ab by (simp add: valid_config_def)
  have si: "unat si < length c"
    using wf set_index_bound [of "nat (s par)" "drop_bit (nat (b par)) a"]
    by (simp add: wf_cache_def si_eq)
  have len: "length ?qs = nat (E par)"
    using wf si by (simp add: wf_cache_def)
  have uniq: "\<forall>i<length ?qs. i \<noteq> j \<longrightarrow> \<not> holds_tag t (?qs ! i)"
    using nodup j unfolding no_duplicate_tags_nth holds_tag_def by metis
  show ?thesis
    by (rule simulate_cache_hit [OF ab si len j uniq bnd])
qed

theorem hit_touches_one_line_witness:
  "simulate_cache
     [[\<lparr>valid = 1, access_count = 1, tag = 0\<rparr>, \<lparr>valid = 1, access_count = 2, tag = 1\<rparr>],
      [\<lparr>valid = 0, access_count = 0, tag = 0\<rparr>, \<lparr>valid = 0, access_count = 0, tag = 0\<rparr>]]
     \<lparr>s = 1, b = 1, E = 2, S = 0, B = 0, hits = 0, misses = 2, evictions = 0\<rparr> 4
   = Inr ([[\<lparr>valid = 1, access_count = 1, tag = 0\<rparr>, \<lparr>valid = 1, access_count = 3, tag = 1\<rparr>],
           [\<lparr>valid = 0, access_count = 0, tag = 0\<rparr>, \<lparr>valid = 0, access_count = 0, tag = 0\<rparr>]],
          \<lparr>s = 1, b = 1, E = 2, S = 0, B = 0, hits = 1, misses = 2, evictions = 0\<rparr>)"
proof -
  let ?inv = "\<lparr>valid = 0, access_count = 0, tag = 0\<rparr>"
  let ?c = "[[\<lparr>valid = 1, access_count = 1, tag = 0\<rparr>, \<lparr>valid = 1, access_count = 2, tag = 1\<rparr>],
             [?inv, ?inv]]"
  let ?p = "\<lparr>s = 1, b = 1, E = 2, S = 0, B = 0, hits = 0, misses = 2, evictions = 0\<rparr>"
  have cfg: "valid_config ?p"
    by (simp add: valid_config_def)
  have wf: "wf_cache ?p ?c"
    by (simp add: wf_cache_def)
  have ab: "address_bits ?p 4 = Inr (1, 0)"
    by (simp add: address_bits_def shl64_def shr64_def bind_err_simps)
  have nodup: "no_duplicate_tags (?c ! unat (0 :: mem_addr_t))"
    by (simp add: no_duplicate_tags_def)
  have j: "1 < length (?c ! unat (0 :: mem_addr_t))" "holds_tag 1 (?c ! unat (0 :: mem_addr_t) ! 1)"
    by (simp_all add: holds_tag_def)
  have bnd: "access_count (?c ! unat (0 :: mem_addr_t) ! 1) < INT_MAX" "hits ?p < INT_MAX"
    by (simp_all add: INT_MAX_def)
  from hit_touches_one_line [OF cfg wf ab nodup j bnd]
  show ?thesis by simp
qed

subsection \<open>C3: a modify is two accesses, the second a hit\<close>

text \<open>
  C3. For every modify record, exactly two cache accesses with the same address are made
  in sequence (\<open>replay\<close> of the record is the second access applied to the result of
  the first). The first access is a hit, a miss, or a miss with an eviction; the second is
  always a hit, which changes neither \<open>misses\<close> nor \<open>evictions\<close>. So a modify
  gives hit+hit, miss+hit, or miss+hit with one eviction on the first access, never two
  misses and never two evictions. The state is one a run reaches (a well-formed cache
  without duplicate tags) with room for two increments below \<open>INT_MAX\<close>.
\<close>

theorem modify_is_two_accesses:
  assumes cfg: "valid_config par" and wf: "wf_cache par c"
    and nodup: "\<forall>qs\<in>set c. no_duplicate_tags qs"
    and room: "headroom 2 par c"
  shows "\<exists>c1 par1 c2 par2.
      simulate_cache c par a = Inr (c1, par1) \<and> simulate_cache c1 par1 a = Inr (c2, par2)
      \<and> replay [(CHR ''M'', a, sz)] c par = Inr (c2, par2)
      \<and> (counters par1 = (hits par + 1, misses par, evictions par)
         \<or> counters par1 = (hits par, misses par + 1, evictions par)
         \<or> counters par1 = (hits par, misses par + 1, evictions par + 1))
      \<and> counters par2 = (hits par1 + 1, misses par1, evictions par1)"
proof -
  have room2: "headroom (1 + 1) par c" using room by simp
  obtain c1 par1 t si where run1: "simulate_cache c par a = Inr (c1, par1)"
    and ab: "address_bits par a = Inr (t, si)" and si: "unat si < length c"
    and held: "\<exists>l\<in>set (c1 ! unat si). holds_tag t l"
    and room1: "headroom 1 par1 c1"
    and cnt1: "(\<exists>l\<in>set (c ! unat si). holds_tag t l)
       \<and> counters par1 = (hits par + 1, misses par, evictions par)
     \<or> (\<forall>l\<in>set (c ! unat si). \<not> holds_tag t l)
       \<and> (counters par1 = (hits par, misses par + 1, evictions par)
          \<or> counters par1 = (hits par, misses par + 1, evictions par + 1))"
    by (rule simulate_cache_step [OF cfg wf nodup room2, of a]) simp_all
  from simulate_cache_wf [OF run1 cfg wf nodup]
  have inv1: "valid_config par1" "wf_cache par1 c1" "\<forall>qs\<in>set c1. no_duplicate_tags qs"
    and same: "address_bits par1 = address_bits par"
    by blast+
  have room1': "headroom (0 + 1) par1 c1" using room1 by simp
  obtain c2 par2 t2 si2 where run2: "simulate_cache c1 par1 a = Inr (c2, par2)"
    and ab2: "address_bits par1 a = Inr (t2, si2)"
    and cnt2: "(\<exists>l\<in>set (c1 ! unat si2). holds_tag t2 l)
       \<and> counters par2 = (hits par1 + 1, misses par1, evictions par1)
     \<or> (\<forall>l\<in>set (c1 ! unat si2). \<not> holds_tag t2 l)
       \<and> (counters par2 = (hits par1, misses par1 + 1, evictions par1)
          \<or> counters par2 = (hits par1, misses par1 + 1, evictions par1 + 1))"
    by (rule simulate_cache_step [OF inv1 room1', of a]) simp_all
  have "t2 = t" "si2 = si" using ab ab2 same by simp_all
  then have hit2: "counters par2 = (hits par1 + 1, misses par1, evictions par1)"
    using cnt2 held by blast
  have "replay [(CHR ''M'', a, sz)] c par = Inr (c2, par2)"
    by (simp add: run1 run2 bind_err_simps)
  moreover have "counters par1 = (hits par + 1, misses par, evictions par)
         \<or> counters par1 = (hits par, misses par + 1, evictions par)
         \<or> counters par1 = (hits par, misses par + 1, evictions par + 1)"
    using cnt1 by blast
  ultimately show ?thesis
    using run1 run2 hit2 by blast
qed

text \<open>The single \<open>M 10,1\<close> of the specification's scenario, on the empty cache.\<close>

theorem modify_is_two_accesses_witness:
  "\<exists>c1 par1 c2 par2.
      simulate_cache [[\<lparr>valid = 0, access_count = 0, tag = 0\<rparr>], [\<lparr>valid = 0, access_count = 0, tag = 0\<rparr>]]
        \<lparr>s = 1, b = 1, E = 1, S = 0, B = 0, hits = 0, misses = 0, evictions = 0\<rparr> 16 = Inr (c1, par1)
      \<and> simulate_cache c1 par1 16 = Inr (c2, par2)
      \<and> replay [(CHR ''M'', 16, 1)]
           [[\<lparr>valid = 0, access_count = 0, tag = 0\<rparr>], [\<lparr>valid = 0, access_count = 0, tag = 0\<rparr>]]
           \<lparr>s = 1, b = 1, E = 1, S = 0, B = 0, hits = 0, misses = 0, evictions = 0\<rparr> = Inr (c2, par2)
      \<and> (counters par1 = (1, 0, 0) \<or> counters par1 = (0, 1, 0) \<or> counters par1 = (0, 1, 1))
      \<and> counters par2 = (hits par1 + 1, misses par1, evictions par1)"
proof -
  let ?c = "[[\<lparr>valid = 0, access_count = 0, tag = 0\<rparr>], [\<lparr>valid = 0, access_count = 0, tag = 0\<rparr>]]"
  let ?p = "\<lparr>s = 1, b = 1, E = 1, S = 0, B = 0, hits = 0, misses = 0, evictions = 0\<rparr>"
  have cfg: "valid_config ?p" by (simp add: valid_config_def)
  have wf: "wf_cache ?p ?c" by (simp add: wf_cache_def)
  have nodup: "\<forall>qs\<in>set ?c. no_duplicate_tags qs" by (simp add: no_duplicate_tags_def)
  have room: "headroom 2 ?p ?c" by (simp add: headroom_def INT_MAX_def)
  from modify_is_two_accesses [OF cfg wf nodup room, of 16 1]
  show ?thesis by simp
qed

subsection \<open>C4: hits plus misses count the accesses\<close>

text \<open>
  C4. For every configuration \<open>main\<close> accepts and builds a cache for (\<open>1 \<le> s \<le> 30\<close>,
  \<open>1 \<le> b\<close>, \<open>s + b \<le> 63\<close>, \<open>1 \<le> E\<close>) and every finite trace of at most
  \<open>INT_MAX\<close> accesses, the run ends and the final \<open>hits + misses\<close> is the number of
  accesses of the trace: none for an instruction record (or any other command character),
  one for a load or a store, two for a modify. Equivalently, every single access, from a
  state a run reaches, increments exactly one of \<open>hits\<close> and \<open>misses\<close>, by exactly 1.
\<close>

theorem hits_plus_misses_counts_accesses:
  assumes "1 \<le> s0" "s0 \<le> 30" "1 \<le> b0" "s0 + b0 \<le> 63" "1 \<le> E0"
    and "int (accesses records) \<le> INT_MAX"
  shows "(\<exists>c par. main s0 E0 b0 (Some f) records = Inr (c, par)
            \<and> hits par + misses par = int (accesses records))
       \<and> (\<forall>c par a. valid_config par \<and> wf_cache par c \<and> (\<forall>qs\<in>set c. no_duplicate_tags qs)
              \<and> headroom 1 par c \<longrightarrow>
            (\<exists>c' par'. simulate_cache c par a = Inr (c', par')
               \<and> (hits par' = hits par + 1 \<and> misses par' = misses par
                   \<or> hits par' = hits par \<and> misses par' = misses par + 1)))"
proof (intro conjI allI impI)
  show "\<exists>c par. main s0 E0 b0 (Some f) records = Inr (c, par)
            \<and> hits par + misses par = int (accesses records)"
    by (rule main_total [OF assms])
next
  fix c par a
  assume inv: "valid_config par \<and> wf_cache par c \<and> (\<forall>qs\<in>set c. no_duplicate_tags qs)
              \<and> headroom 1 par c"
  then have room: "headroom (0 + 1) par c" by simp
  from inv have cfg: "valid_config par" and wf: "wf_cache par c"
    and nodup: "\<forall>qs\<in>set c. no_duplicate_tags qs"
    by blast+
  obtain c' par' t si where run: "simulate_cache c par a = Inr (c', par')"
    and ab: "address_bits par a = Inr (t, si)"
    and cnt: "(\<exists>l\<in>set (c ! unat si). holds_tag t l)
       \<and> counters par' = (hits par + 1, misses par, evictions par)
     \<or> (\<forall>l\<in>set (c ! unat si). \<not> holds_tag t l)
       \<and> (counters par' = (hits par, misses par + 1, evictions par)
          \<or> counters par' = (hits par, misses par + 1, evictions par + 1))"
    by (rule simulate_cache_step [OF cfg wf nodup room, of a]) simp_all
  have "hits par' = hits par + 1 \<and> misses par' = misses par
        \<or> hits par' = hits par \<and> misses par' = misses par + 1"
    using cnt by (auto simp: counters_def)
  with run show "\<exists>c' par'. simulate_cache c par a = Inr (c', par')
               \<and> (hits par' = hits par + 1 \<and> misses par' = misses par
                   \<or> hits par' = hits par \<and> misses par' = misses par + 1)"
    by blast
qed

theorem hits_plus_misses_counts_accesses_witness:
  "\<exists>c par. main 1 1 1 (Some ''trace'')
       [(CHR ''I'', 0, 1), (CHR ''L'', 16, 1), (CHR ''M'', 24, 1), (CHR ''S'', 16, 1)] = Inr (c, par)
     \<and> hits par + misses par = 4"
proof -
  have "int (accesses [(CHR ''I'', 0, 1), (CHR ''L'', 16, 1), (CHR ''M'', 24, 1), (CHR ''S'', 16, 1)])
          \<le> INT_MAX"
    by (simp add: INT_MAX_def)
  from hits_plus_misses_counts_accesses [of 1 1 1, OF _ _ _ _ _ this, of "''trace''"]
  show ?thesis by simp
qed

subsection \<open>C5: the scenario of three loads\<close>

text \<open>
  C5 says that with \<open>s = 1\<close>, \<open>E = 1\<close>, \<open>b = 1\<close> the trace \<open>L 10,1\<close>,
  \<open>L 20,1\<close>, \<open>L 10,1\<close> ends with 1 hit, 2 misses and no eviction, because the two
  addresses map to different sets. The code does not print these numbers.
\<close>

theorem three_loads_counterexample:
  "summary (main 1 1 1 (Some ''trace'') [(CHR ''L'', 0x10, 1), (CHR ''L'', 0x20, 1), (CHR ''L'', 0x10, 1)])
     \<noteq> Inr (1, 2, 0)"
  by code_simp

text \<open>
  C5, amended. With \<open>s = 1\<close>, \<open>E = 1\<close>, \<open>b = 1\<close>, starting from an empty cache, the
  trace \<open>L 10,1\<close>, \<open>L 20,1\<close>, \<open>L 10,1\<close> ends with 0 hits, 3 misses and 2
  evictions: bit 1 of both \<open>0x10\<close> and \<open>0x20\<close> is 0, so both addresses map to set 0,
  with the different tags 4 and 8, and with a single line per set each load evicts the
  block of the load before.
\<close>

theorem three_loads_conflict:
  "address_bits \<lparr>s = 1, b = 1, E = 1, S = 0, B = 0, hits = 0, misses = 0, evictions = 0\<rparr> 0x10
     = Inr (4, 0)
   \<and> address_bits \<lparr>s = 1, b = 1, E = 1, S = 0, B = 0, hits = 0, misses = 0, evictions = 0\<rparr> 0x20
     = Inr (8, 0)
   \<and> summary (main 1 1 1 (Some ''trace'')
        [(CHR ''L'', 0x10, 1), (CHR ''L'', 0x20, 1), (CHR ''L'', 0x10, 1)]) = Inr (0, 3, 2)"
  by code_simp

subsection \<open>C6: the victim after a set has filled\<close>

text \<open>
  C6. For every configuration with \<open>E \<ge> 2\<close> and every sequence of accesses to \<open>E\<close>
  distinct tags of one set, starting from that set empty, the set fills without an
  eviction, and a following access to a tag not among them evicts exactly the line whose
  most recent access is the oldest. The code does not: a hit adds only 1 to the recency of
  its line, where a fill writes the maximum plus 1. With \<open>s = 1\<close>, \<open>E = 2\<close>,
  \<open>b = 1\<close>, after \<open>L 0\<close>, \<open>L 4\<close>, \<open>L 0\<close> (tags 0, 1, 0 of set 0) both lines
  have recency 2, and \<open>L 8\<close> (tag 2) evicts line 0, which holds tag 0, the tag touched
  last, and keeps tag 1, the least recently touched.
\<close>

theorem hit_does_not_renew_recency:
  "main 1 2 1 (Some ''trace'') [(CHR ''L'', 0, 1), (CHR ''L'', 4, 1), (CHR ''L'', 0, 1)]
     = Inr ([[\<lparr>valid = 1, access_count = 2, tag = 0\<rparr>, \<lparr>valid = 1, access_count = 2, tag = 1\<rparr>],
             [\<lparr>valid = 0, access_count = 0, tag = 0\<rparr>, \<lparr>valid = 0, access_count = 0, tag = 0\<rparr>]],
            \<lparr>s = 1, b = 1, E = 2, S = 0, B = 0, hits = 1, misses = 2, evictions = 0\<rparr>)
   \<and> main 1 2 1 (Some ''trace'')
       [(CHR ''L'', 0, 1), (CHR ''L'', 4, 1), (CHR ''L'', 0, 1), (CHR ''L'', 8, 1)]
     = Inr ([[\<lparr>valid = 1, access_count = 3, tag = 2\<rparr>, \<lparr>valid = 1, access_count = 2, tag = 1\<rparr>],
             [\<lparr>valid = 0, access_count = 0, tag = 0\<rparr>, \<lparr>valid = 0, access_count = 0, tag = 0\<rparr>]],
            \<lparr>s = 1, b = 1, E = 2, S = 0, B = 0, hits = 1, misses = 3, evictions = 1\<rparr>)"
  by code_simp

subsection \<open>C7: the decomposition of an address\<close>

text \<open>
  C7 says that the decomposition is total for every configuration with \<open>s, b \<ge> 1\<close>,
  and that the tag is the remaining high \<open>64 - s - b\<close> bits. With \<open>s = 2\<close> and
  \<open>b = 62\<close> no bit remains for the tag, and line 224 computes \<open>address >> 64\<close>, a
  shift by the width of the type, which C leaves undefined.
\<close>

theorem shift_by_64_counterexample:
  "address_bits \<lparr>s = 2, b = 62, E = 1, S = 0, B = 0, hits = 0, misses = 0, evictions = 0\<rparr> 1
     = Inl Shift_out_of_range"
  by code_simp

text \<open>
  C7, amended. For every 64-bit address and every configuration with \<open>s, b \<ge> 1\<close> and
  \<open>s + b \<le> 63\<close>, the decomposition returns a tag and a set index, and no offset: the
  tag is the address without its low \<open>s + b\<close> bits, the set index is the \<open>s\<close> bits
  above the low \<open>b\<close> bits, and it is below \<open>2^s\<close>. It is a function of the
  configuration and the address alone.
\<close>

theorem address_bits_fields:
  assumes "1 \<le> s par" "1 \<le> b par" "s par + b par \<le> 63"
  shows "\<exists>t si. address_bits par a = Inr (t, si)
      \<and> unat t = unat a div 2 ^ nat (s par + b par)
      \<and> unat si = unat a div 2 ^ nat (b par) mod 2 ^ nat (s par)
      \<and> unat si < 2 ^ nat (s par)"
proof -
  let ?t = "drop_bit (nat (s par + b par)) a"
  let ?si = "take_bit (nat (s par)) (drop_bit (nat (b par)) a)"
  have "address_bits par a = Inr (?t, ?si)"
    by (rule address_bits_valid [OF assms])
  moreover have "unat ?t = unat a div 2 ^ nat (s par + b par)"
    unfolding unat_drop_bit_eq by (simp only: drop_bit_eq_div)
  moreover have "unat ?si = unat a div 2 ^ nat (b par) mod 2 ^ nat (s par)"
    unfolding unsigned_take_bit_eq unat_drop_bit_eq by (simp only: drop_bit_eq_div take_bit_eq_mod)
  moreover have "unat ?si < 2 ^ nat (s par)"
    by (rule set_index_bound)
  ultimately show ?thesis by blast
qed

theorem address_bits_fields_witness:
  "\<exists>t si. address_bits \<lparr>s = 1, b = 1, E = 1, S = 0, B = 0, hits = 0, misses = 0, evictions = 0\<rparr> 0x18
       = Inr (t, si)
     \<and> unat t = 6 \<and> unat si = 0 \<and> unat si < 2"
  using address_bits_fields
    [of "\<lparr>s = 1, b = 1, E = 1, S = 0, B = 0, hits = 0, misses = 0, evictions = 0\<rparr>" "0x18"]
  by simp

subsection \<open>C8: no tag is resident twice in a set\<close>

text \<open>
  C8. In every state a run reaches from the cache \<open>build_cache\<close> returns, by any sequence
  of accesses, every set has at most one valid line for a given tag, and every access that
  returns from such a state leads to a state with the same property.
\<close>

theorem reachable_no_duplicate_tags:
  assumes "reachable par0 (c, par)"
  shows "(\<forall>qs\<in>set c. no_duplicate_tags qs)
       \<and> (\<forall>a c' par'. simulate_cache c par a = Inr (c', par') \<longrightarrow>
            (\<forall>qs\<in>set c'. no_duplicate_tags qs))"
proof -
  have inv: "(\<forall>qs\<in>set c. length qs = nat (E par)) \<and> (\<forall>qs\<in>set c. no_duplicate_tags qs)"
    using reachable_invariant [OF assms] by simp
  then have "\<forall>a c' par'. simulate_cache c par a = Inr (c', par') \<longrightarrow>
            (\<forall>qs\<in>set c'. no_duplicate_tags qs)"
    using simulate_cache_no_duplicates [of c par] by blast
  with inv show ?thesis by blast
qed

text \<open>
  With \<open>s = 1\<close>, \<open>E = 2\<close>, \<open>b = 1\<close>: the state after \<open>L 0\<close> and \<open>L 4\<close> on the
  empty cache is reachable and holds the two tags 0 and 1 in set 0; \<open>L 8\<close> then evicts
  tag 0 for tag 2, and set 0 holds the two tags 2 and 1.
\<close>

theorem reachable_no_duplicate_tags_witness:
  "reachable \<lparr>s = 1, b = 1, E = 2, S = 0, B = 0, hits = 0, misses = 0, evictions = 0\<rparr>
     ([[\<lparr>valid = 1, access_count = 1, tag = 0\<rparr>, \<lparr>valid = 1, access_count = 2, tag = 1\<rparr>],
       [\<lparr>valid = 0, access_count = 0, tag = 0\<rparr>, \<lparr>valid = 0, access_count = 0, tag = 0\<rparr>]],
      \<lparr>s = 1, b = 1, E = 2, S = 0, B = 0, hits = 0, misses = 2, evictions = 0\<rparr>)
   \<and> no_duplicate_tags
       [\<lparr>valid = 1, access_count = 1, tag = 0\<rparr>, \<lparr>valid = 1, access_count = 2, tag = 1\<rparr>]
   \<and> no_duplicate_tags
       [\<lparr>valid = 0, access_count = 0, tag = 0\<rparr>, \<lparr>valid = 0, access_count = 0, tag = 0\<rparr>]
   \<and> simulate_cache
       [[\<lparr>valid = 1, access_count = 1, tag = 0\<rparr>, \<lparr>valid = 1, access_count = 2, tag = 1\<rparr>],
        [\<lparr>valid = 0, access_count = 0, tag = 0\<rparr>, \<lparr>valid = 0, access_count = 0, tag = 0\<rparr>]]
       \<lparr>s = 1, b = 1, E = 2, S = 0, B = 0, hits = 0, misses = 2, evictions = 0\<rparr> 8
     = Inr ([[\<lparr>valid = 1, access_count = 3, tag = 2\<rparr>, \<lparr>valid = 1, access_count = 2, tag = 1\<rparr>],
             [\<lparr>valid = 0, access_count = 0, tag = 0\<rparr>, \<lparr>valid = 0, access_count = 0, tag = 0\<rparr>]],
            \<lparr>s = 1, b = 1, E = 2, S = 0, B = 0, hits = 0, misses = 3, evictions = 1\<rparr>)
   \<and> no_duplicate_tags
       [\<lparr>valid = 1, access_count = 3, tag = 2\<rparr>, \<lparr>valid = 1, access_count = 2, tag = 1\<rparr>]"
proof -
  let ?inv = "\<lparr>valid = 0, access_count = 0, tag = 0\<rparr>"
  let ?p0 = "\<lparr>s = 1, b = 1, E = 2, S = 0, B = 0, hits = 0, misses = 0, evictions = 0\<rparr>"
  let ?c0 = "[[?inv, ?inv], [?inv, ?inv]]"
  let ?p1 = "\<lparr>s = 1, b = 1, E = 2, S = 0, B = 0, hits = 0, misses = 1, evictions = 0\<rparr>"
  let ?c1 = "[[\<lparr>valid = 1, access_count = 1, tag = 0\<rparr>, ?inv], [?inv, ?inv]]"
  let ?p2 = "\<lparr>s = 1, b = 1, E = 2, S = 0, B = 0, hits = 0, misses = 2, evictions = 0\<rparr>"
  let ?c2 = "[[\<lparr>valid = 1, access_count = 1, tag = 0\<rparr>, \<lparr>valid = 1, access_count = 2, tag = 1\<rparr>],
              [?inv, ?inv]]"
  let ?p3 = "\<lparr>s = 1, b = 1, E = 2, S = 0, B = 0, hits = 0, misses = 3, evictions = 1\<rparr>"
  let ?c3 = "[[\<lparr>valid = 1, access_count = 3, tag = 2\<rparr>, \<lparr>valid = 1, access_count = 2, tag = 1\<rparr>],
              [?inv, ?inv]]"
  have "build_cache 2 (E ?p0) 2 = Inr ?c0"
    by (simp add: build_cache_def INT_MAX_def numeral_2_eq_2)
  then have r0: "reachable ?p0 (?c0, ?p0)"
    by (rule reachable.start)
  have "simulate_cache ?c0 ?p0 0 = Inr (?c1, ?p1)"
    by code_simp
  with r0 have r1: "reachable ?p0 (?c1, ?p1)"
    by (rule reachable.step)
  have "simulate_cache ?c1 ?p1 4 = Inr (?c2, ?p2)"
    by code_simp
  with r1 have r2: "reachable ?p0 (?c2, ?p2)"
    by (rule reachable.step)
  have s3: "simulate_cache ?c2 ?p2 8 = Inr (?c3, ?p3)"
    by code_simp
  note inv = reachable_no_duplicate_tags [OF r2]
  from inv have now: "\<forall>qs\<in>set ?c2. no_duplicate_tags qs"
    by (rule conjunct1)
  from inv s3 have after: "\<forall>qs\<in>set ?c3. no_duplicate_tags qs"
    by blast
  from r2 now s3 after show ?thesis by simp
qed

subsection \<open>C9: the arguments \<open>main\<close> rejects\<close>

text \<open>
  C9 says that a configuration in which \<open>s\<close>, \<open>E\<close> or \<open>b\<close> is zero or negative is
  rejected before a cache is built. Line 334 compares with 0 only: with \<open>s = -1\<close> the
  run goes on, builds a cache of no set and ends normally on an empty trace; with
  \<open>E = -1\<close> it builds sets of no line and the first access reads outside them.
\<close>

theorem negative_arguments_counterexample:
  "main (- 1) 1 1 (Some ''trace'') []
     = Inr ([], \<lparr>s = - 1, b = 1, E = 1, S = 0, B = 0, hits = 0, misses = 0, evictions = 0\<rparr>)
   \<and> main 1 (- 1) 1 (Some ''trace'') [(CHR ''L'', 0, 1)] = Inl Index_out_of_bounds"
  by code_simp

text \<open>
  C9, amended. For every configuration in which \<open>s\<close>, \<open>E\<close> or \<open>b\<close> is zero, the
  value an absent option leaves, \<open>main\<close> stops with the usage message at the check of
  line 334: before \<open>build_cache\<close> and before any record is replayed, whatever the
  trace, and whether or not a trace file is named. When a trace file is named, it stops
  with this message for no other configuration and at no later step of the run; a
  negative \<open>s\<close>, \<open>E\<close> or \<open>b\<close> is not detected.
\<close>

theorem zero_argument_stops_main:
  "(s0 = 0 \<or> E0 = 0 \<or> b0 = 0 \<longrightarrow> main s0 E0 b0 trace_file records = Inl Missing_argument)
   \<and> (main s0 E0 b0 (Some f) records = Inl Missing_argument \<longrightarrow> s0 = 0 \<or> E0 = 0 \<or> b0 = 0)"
proof (intro conjI impI)
  assume "s0 = 0 \<or> E0 = 0 \<or> b0 = 0"
  then show "main s0 E0 b0 trace_file records = Inl Missing_argument"
    by (auto simp: main_def)
next
  assume m: "main s0 E0 b0 (Some f) records = Inl Missing_argument"
  show "s0 = 0 \<or> E0 = 0 \<or> b0 = 0"
  proof (rule ccontr)
    assume "\<not> (s0 = 0 \<or> E0 = 0 \<or> b0 = 0)"
    then have "main s0 E0 b0 (Some f) records \<noteq> Inl Missing_argument"
      by (auto simp: main_def Let_def bind_err_Inl_iff replay_not_missing pow2_sets_def
          bit_pow_def build_cache_def split: if_splits)
    with m show False by contradiction
  qed
qed

text \<open>
  Without \<open>-s\<close> and without \<open>-t\<close> the run stops at the check, and the pointer is not
  read; with \<open>E = 0\<close> and \<open>s = 63\<close> it stops at the check, where line 341 would
  convert \<open>2^63\<close> to a \<open>long long\<close>; with \<open>s = E = b = 1\<close>, and with
  \<open>E = -1\<close>, it does not stop there.
\<close>

theorem zero_argument_stops_main_witness:
  "main 0 1 1 None [(CHR ''L'', 0, 1)] = Inl Missing_argument
   \<and> main 63 0 1 (Some ''trace'') [(CHR ''L'', 0, 1)] = Inl Missing_argument
   \<and> pow2_sets 63 = Inl Conversion_out_of_range
   \<and> main 1 1 1 (Some ''trace'') [(CHR ''L'', 0, 1)] \<noteq> Inl Missing_argument
   \<and> main 1 (- 1) 1 (Some ''trace'') [(CHR ''L'', 0, 1)] \<noteq> Inl Missing_argument"
  using zero_argument_stops_main [of 0 1 1 None "[(CHR ''L'', 0, 1)]" "''trace''"]
    zero_argument_stops_main [of 63 0 1 "Some ''trace''" "[(CHR ''L'', 0, 1)]" "''trace''"]
    zero_argument_stops_main [of 1 1 1 "Some ''trace''" "[(CHR ''L'', 0, 1)]" "''trace''"]
    zero_argument_stops_main [of 1 "- 1" 1 "Some ''trace''" "[(CHR ''L'', 0, 1)]" "''trace''"]
  by (simp add: pow2_sets_def)

subsection \<open>C10: evictions never exceed misses\<close>

text \<open>
  C10. Every access that returns leaves \<open>evictions\<close> unchanged or increments it by 1,
  and increments it only together with \<open>misses\<close> (and without a hit); consequently,
  after every prefix of a trace replayed by \<open>main\<close>, whose counters start at zero,
  \<open>evictions \<le> misses\<close>. For a configuration \<open>main\<close> builds a cache for and a trace
  of at most \<open>INT_MAX\<close> accesses, the run of every prefix does return.
\<close>

theorem evictions_at_most_misses:
  "(\<forall>c par a c' par'. simulate_cache c par a = Inr (c', par') \<longrightarrow>
       evictions par' = evictions par
       \<or> evictions par' = evictions par + 1 \<and> misses par' = misses par + 1 \<and> hits par' = hits par)
   \<and> (\<forall>n c par. main s0 E0 b0 tf (take n records) = Inr (c, par) \<longrightarrow> evictions par \<le> misses par)
   \<and> (1 \<le> s0 \<and> s0 \<le> 30 \<and> 1 \<le> b0 \<and> s0 + b0 \<le> 63 \<and> 1 \<le> E0
        \<and> int (accesses records) \<le> INT_MAX \<longrightarrow>
      (\<forall>n. \<exists>c par. main s0 E0 b0 (Some f) (take n records) = Inr (c, par)
              \<and> evictions par \<le> misses par))"
proof -
  have one: "\<forall>c par a c' par'. simulate_cache c par a = Inr (c', par') \<longrightarrow>
       evictions par' = evictions par
       \<or> evictions par' = evictions par + 1 \<and> misses par' = misses par + 1 \<and> hits par' = hits par"
    using simulate_cache_counters(2) by blast
  have prefix: "\<And>tf' n c par. main s0 E0 b0 tf' (take n records) = Inr (c, par)
      \<Longrightarrow> evictions par \<le> misses par"
  proof -
    fix tf' n c par
    assume "main s0 E0 b0 tf' (take n records) = Inr (c, par)"
    from main_Inr [OF this] obtain c0 where
      "replay (take n records) c0
         \<lparr>s = s0, b = b0, E = E0, S = 0, B = 0, hits = 0, misses = 0, evictions = 0\<rparr> = Inr (c, par)"
      by blast
    from replay_counters [OF this] show "evictions par \<le> misses par" by simp
  qed
  have run: "1 \<le> s0 \<and> s0 \<le> 30 \<and> 1 \<le> b0 \<and> s0 + b0 \<le> 63 \<and> 1 \<le> E0
        \<and> int (accesses records) \<le> INT_MAX \<longrightarrow>
      (\<forall>n. \<exists>c par. main s0 E0 b0 (Some f) (take n records) = Inr (c, par)
              \<and> evictions par \<le> misses par)"
  proof (intro impI allI)
    fix n
    assume a: "1 \<le> s0 \<and> s0 \<le> 30 \<and> 1 \<le> b0 \<and> s0 + b0 \<le> 63 \<and> 1 \<le> E0
        \<and> int (accesses records) \<le> INT_MAX"
    have "int (accesses (take n records)) \<le> INT_MAX"
      using a accesses_take [of n records] by linarith
    with a obtain c par where "main s0 E0 b0 (Some f) (take n records) = Inr (c, par)"
      using main_total [of s0 b0 E0 "take n records" f] by blast
    then show "\<exists>c par. main s0 E0 b0 (Some f) (take n records) = Inr (c, par)
              \<and> evictions par \<le> misses par"
      using prefix by blast
  qed
  from one prefix run show ?thesis by blast
qed

theorem evictions_at_most_misses_witness:
  "\<exists>c par. main 1 1 1 (Some ''trace'') (take 2 [(CHR ''L'', 16, 1), (CHR ''L'', 24, 1), (CHR ''L'', 16, 1)])
       = Inr (c, par) \<and> evictions par \<le> misses par"
proof -
  have "(1 :: int) \<le> 1 \<and> (1 :: int) \<le> 30 \<and> (1 :: int) \<le> 1 \<and> (1 :: int) + 1 \<le> 63 \<and> (1 :: int) \<le> 1
      \<and> int (accesses [(CHR ''L'', 16, 1), (CHR ''L'', 24, 1), (CHR ''L'', 16, 1)]) \<le> INT_MAX"
    by (simp add: INT_MAX_def)
  with evictions_at_most_misses [of 1 1 1 "Some ''trace''"
      "[(CHR ''L'', 16, 1), (CHR ''L'', 24, 1), (CHR ''L'', 16, 1)]" "''trace''"]
  show ?thesis by blast
qed

section \<open>A further property: the victim when every tag was loaded once\<close>

text \<open>
  When \<open>E\<close> distinct tags of one set are loaded one after the other, each once, into
  the empty set, the set fills in order with \<open>E\<close> misses and no eviction, line
  \<open>i\<close> getting recency \<open>i + 1\<close>; the next load of another tag of the set evicts
  line 0, which holds the tag loaded first.
\<close>

theorem fills_then_evicts_first:
  assumes cfg: "valid_config par" and wf: "wf_cache par c"
    and empty: "c ! unat si = replicate (nat (E par)) \<lparr>valid = 0, access_count = 0, tag = 0\<rparr>"
    and len: "nat (E par) = length ts" "length as = length ts" and dist: "distinct ts"
    and ab: "\<forall>i<length ts. address_bits par (as ! i) = Inr (ts ! i, si)"
    and new: "address_bits par a' = Inr (t', si)" "t' \<notin> set ts"
    and room: "misses par + int (length ts) < INT_MAX" "int (length ts) < INT_MAX"
      "evictions par < INT_MAX"
  shows "replay (map (\<lambda>a. (CHR ''L'', a, sz)) as) c par =
           Inr (c[unat si := map (loaded_line ts) [0..<length ts]],
                par\<lparr>misses := misses par + int (length ts)\<rparr>)
       \<and> replay (map (\<lambda>a. (CHR ''L'', a, sz)) as @ [(CHR ''L'', a', sz)]) c par =
           Inr (c[unat si := (map (loaded_line ts) [0..<length ts])
                    [0 := \<lparr>valid = 1, access_count = int (length ts) + 1, tag = t'\<rparr>]],
                par\<lparr>misses := misses par + int (length ts) + 1,
                    evictions := evictions par + 1\<rparr>)"
proof -
  let ?n = "length ts"
  let ?full = "map (loaded_line ts) [0..<?n]"
  let ?c1 = "c[unat si := ?full]"
  let ?p1 = "par\<lparr>misses := misses par + int ?n\<rparr>"
  have si_eq: "si = take_bit (nat (s par)) (drop_bit (nat (b par)) a')"
    using address_bits_valid [of par a'] cfg new(1) by (simp add: valid_config_def)
  have si: "unat si < length c"
    using wf set_index_bound [of "nat (s par)" "drop_bit (nat (b par)) a'"]
    by (simp add: wf_cache_def si_eq)
  have "0 < nat (E par)" using cfg by (simp add: valid_config_def)
  then have n: "0 < ?n" unfolding len(1) .
  have full: "filling ts ?n ?n = ?full" by (simp add: filling_def)
  have fill: "replay (map (\<lambda>a. (CHR ''L'', a, sz)) as) c par = Inr (?c1, ?p1)"
    using filling_prefix [OF cfg si empty len dist ab room(1,2), of ?n sz] len by (simp add: full)
  have ab1: "address_bits ?p1 a' = Inr (t', si)"
    using new(1) by (simp add: address_bits_def)
  have s1: "unat si < length ?c1" using si by simp
  have qs: "?c1 ! unat si = ?full" using si by simp
  have len1: "length (?c1 ! unat si) = nat (E ?p1)" using len by (simp add: qs)
  have Epos: "0 < E ?p1" using cfg by (simp add: valid_config_def)
  have miss: "\<forall>l\<in>set (?c1 ! unat si). \<not> holds_tag t' l"
    unfolding qs using new(2) by (auto simp: holds_tag_def loaded_line_def)
  have allv: "\<forall>l\<in>set (?c1 ! unat si). valid l \<noteq> 0"
    unfolding qs by (auto simp: loaded_line_def)
  have victim: "lru_victim (?c1 ! unat si) 0"
    unfolding qs lru_victim_def using n by (auto simp: loaded_line_def)
  have mx: "max_recency ?full = int ?n"
    using filling_max_recency [of ?n ?n ts] n by (simp add: full)
  have bnd: "misses ?p1 < INT_MAX" "evictions ?p1 < INT_MAX" "max_recency (?c1 ! unat si) < INT_MAX"
    using room unfolding qs mx by simp_all
  have line0: "(?full ! 0)\<lparr>tag := t', access_count := int ?n + 1\<rparr>
      = \<lparr>valid = 1, access_count = int ?n + 1, tag = t'\<rparr>"
    using n by (simp add: loaded_line_def)
  have last: "simulate_cache ?c1 ?p1 a' =
      Inr (c[unat si := ?full[0 := \<lparr>valid = 1, access_count = int ?n + 1, tag = t'\<rparr>]],
           par\<lparr>misses := misses par + int ?n + 1, evictions := evictions par + 1\<rparr>)"
    unfolding simulate_cache_evict [OF ab1 s1 len1 Epos miss allv victim bnd]
    unfolding qs mx line0
    by simp
  have "replay (map (\<lambda>a. (CHR ''L'', a, sz)) as @ [(CHR ''L'', a', sz)]) c par =
           Inr (c[unat si := ?full[0 := \<lparr>valid = 1, access_count = int ?n + 1, tag = t'\<rparr>]],
                par\<lparr>misses := misses par + int ?n + 1, evictions := evictions par + 1\<rparr>)"
    unfolding replay_append fill by (simp add: bind_err_simps last)
  with fill show ?thesis by blast
qed

theorem fills_then_evicts_first_witness:
  "replay [(CHR ''L'', 0, 1), (CHR ''L'', 4, 1), (CHR ''L'', 8, 1)]
     [[\<lparr>valid = 0, access_count = 0, tag = 0\<rparr>, \<lparr>valid = 0, access_count = 0, tag = 0\<rparr>],
      [\<lparr>valid = 0, access_count = 0, tag = 0\<rparr>, \<lparr>valid = 0, access_count = 0, tag = 0\<rparr>]]
     \<lparr>s = 1, b = 1, E = 2, S = 0, B = 0, hits = 0, misses = 0, evictions = 0\<rparr>
   = Inr ([[\<lparr>valid = 1, access_count = 3, tag = 2\<rparr>, \<lparr>valid = 1, access_count = 2, tag = 1\<rparr>],
           [\<lparr>valid = 0, access_count = 0, tag = 0\<rparr>, \<lparr>valid = 0, access_count = 0, tag = 0\<rparr>]],
          \<lparr>s = 1, b = 1, E = 2, S = 0, B = 0, hits = 0, misses = 3, evictions = 1\<rparr>)"
proof -
  let ?inv = "\<lparr>valid = 0, access_count = 0, tag = 0\<rparr>"
  let ?c = "[[?inv, ?inv], [?inv, ?inv]]"
  let ?p = "\<lparr>s = 1, b = 1, E = 2, S = 0, B = 0, hits = 0, misses = 0, evictions = 0\<rparr>"
  have cfg: "valid_config ?p" by (simp add: valid_config_def)
  have wf: "wf_cache ?p ?c" by (simp add: wf_cache_def)
  have empty: "?c ! unat (0 :: mem_addr_t) = replicate (nat (E ?p)) ?inv"
    by (simp add: numeral_2_eq_2)
  have len: "nat (E ?p) = length [0, 1 :: mem_addr_t]" "length [0, 4 :: mem_addr_t] = length [0, 1 :: mem_addr_t]"
    by simp_all
  have dist: "distinct [0, 1 :: mem_addr_t]" by simp
  have ab: "\<forall>i<length [0, 1 :: mem_addr_t]. address_bits ?p ([0, 4] ! i) = Inr ([0, 1] ! i, 0)"
  proof (intro allI impI)
    fix i :: nat
    assume "i < length [0, 1 :: mem_addr_t]"
    then have "i = 0 \<or> i = 1" by auto
    then show "address_bits ?p ([0, 4] ! i) = Inr ([0, 1] ! i, 0)"
      by (auto simp: address_bits_def shl64_def shr64_def bind_err_simps)
  qed
  have new: "address_bits ?p 8 = Inr (2, 0)" "(2 :: mem_addr_t) \<notin> set [0, 1]"
    by (simp_all add: address_bits_def shl64_def shr64_def bind_err_simps)
  have room: "misses ?p + int (length [0, 1 :: mem_addr_t]) < INT_MAX"
    "int (length [0, 1 :: mem_addr_t]) < INT_MAX" "evictions ?p < INT_MAX"
    by (simp_all add: INT_MAX_def)
  from fills_then_evicts_first [OF cfg wf empty len dist ab new room, of 1]
  show ?thesis
    by (simp add: loaded_line_def upt_rec)
qed

end
